theory Spec2Isabelle
  imports Main
begin

section \<open>Parsed documents\<close>

text \<open>
  Modelled from the spec: the Holder class is not among the sources. The spec gives it as
  an order-preserving key/value tree that mirrors the parsed document and supports item
  lookup by key. A holder carries \<open>None\<close>, a string scalar, a list of holders or a dict
  from string keys to holders; the dict is kept as an association list in the order of
  its items. Source positions are left out: no function below reads them.
\<close>

datatype holder =
    Null
  | Leaf string
  | Seq "holder list"
  | Dict "(string \<times> holder) list"

text \<open>
  The exceptions of the import loader. The \<open>DSLParsingLogicException\<close>s are kept with
  the arguments of their message; \<open>error_code\<close> gives the numeric code of each.
\<close>

datatype error =
    ValueError
  | AttributeError
  | TypeError
  | KeyError string
  | NonMergeableField string
  | MergeConflict string string
  | NoSuitableLocation string
  | DifferentVersion string string holder
  | NetworkXUnfeasible
  | CollaboratorError string

fun error_code :: "error \<Rightarrow> nat option" where
  "error_code (NonMergeableField k) = Some 3"
| "error_code (MergeConflict s k) = Some 4"
| "error_code (NoSuitableLocation i) = Some 13"
| "error_code (DifferentVersion r u v) = Some 28"
| "error_code e = None"

text \<open>
  \<open>Holder.get_item\<close>: the item stored under a key, \<open>(None, None)\<close> when there is
  none, and a \<open>ValueError\<close> when the holder's value is not a dict.
\<close>

fun get_item :: "holder \<Rightarrow> string \<Rightarrow> error + (string \<times> holder) option" where
  "get_item (Dict items) key = Inr (find (\<lambda>kv. fst kv = key) items)"
| "get_item h key = Inl ValueError"

text \<open>\<open>d[key] = value\<close> on a dict: an existing key keeps its place.\<close>

fun setitem :: "(string \<times> holder) list \<Rightarrow> string \<Rightarrow> holder \<Rightarrow> (string \<times> holder) list" where
  "setitem [] k v = [(k, v)]"
| "setitem (kv # rest) k v = (if fst kv = k then (k, v) # rest else kv # setitem rest k v)"

text \<open>
  Iterating the restored value of a holder, as \<open>for x in holder.restore()\<close> does: a
  list gives its items, a string its characters, a dict its keys, and \<open>None\<close> is not
  iterable.
\<close>

fun iterate_restored :: "holder \<Rightarrow> error + holder list" where
  "iterate_restored Null = Inl TypeError"
| "iterate_restored (Leaf s) = Inr (map (\<lambda>c. Leaf [c]) s)"
| "iterate_restored (Seq hs) = Inr hs"
| "iterate_restored (Dict items) = Inr (map (\<lambda>kv. Leaf (fst kv)) items)"

section \<open>Section names\<close>

text \<open>
  Modelled from the spec: the modules \<open>constants\<close> and \<open>dsl_supported_versions\<close>
  are not among the sources. The names are those of the spec's policy table; the value
  of \<open>INTERFACES\<close> is also set in \<open>interfaces/__init__.py\<close>.
\<close>

definition INTERFACES :: string where "INTERFACES = ''interfaces''"
definition NODE_TYPES :: string where "NODE_TYPES = ''node_types''"
definition PLUGINS :: string where "PLUGINS = ''plugins''"
definition WORKFLOWS :: string where "WORKFLOWS = ''workflows''"
definition RELATIONSHIPS :: string where "RELATIONSHIPS = ''relationships''"
definition GROUPS :: string where "GROUPS = ''groups''"
definition DATA_TYPES :: string where "DATA_TYPES = ''data_types''"
definition DSL_DEFINITIONS :: string where "DSL_DEFINITIONS = ''dsl_definitions''"
definition IMPORTS :: string where "IMPORTS = ''imports''"
definition VERSION :: string where "VERSION = ''tosca_definitions_version''"

definition MERGE_NO_OVERRIDE :: "string list" where
  "MERGE_NO_OVERRIDE =
     [INTERFACES, NODE_TYPES, PLUGINS, WORKFLOWS, RELATIONSHIPS, GROUPS, DATA_TYPES]"

definition IGNORE :: "string list" where
  "IGNORE = [DSL_DEFINITIONS, IMPORTS, VERSION]"

section \<open>The graphs of the imports\<close>

text \<open>
  A \<open>networkx.DiGraph\<close>: the nodes in the order they were added, each with its
  \<open>parsed\<close> attribute when it has one, and the edges.
\<close>

record digraph =
  nodes :: "(string \<times> holder option) list"
  edges :: "(string \<times> string) list"

definition empty_digraph :: digraph where
  "empty_digraph = \<lparr>nodes = [], edges = []\<rparr>"

definition has_node :: "digraph \<Rightarrow> string \<Rightarrow> bool" where
  "has_node G n = (n \<in> set (map fst (nodes G)))"

text \<open>\<open>DiGraph.add_node(n, parsed=p)\<close>: a new node, or a new attribute of an old one.\<close>

definition add_node :: "digraph \<Rightarrow> string \<Rightarrow> holder \<Rightarrow> digraph" where
  "add_node G n p =
     (if has_node G n
      then G\<lparr>nodes := map (\<lambda>na. if fst na = n then (n, Some p) else na) (nodes G)\<rparr>
      else G\<lparr>nodes := nodes G @ [(n, Some p)]\<rparr>)"

definition ensure_node :: "digraph \<Rightarrow> string \<Rightarrow> digraph" where
  "ensure_node G n = (if has_node G n then G else G\<lparr>nodes := nodes G @ [(n, None)]\<rparr>)"

text \<open>\<open>DiGraph.add_edge(u, v)\<close>: both ends become nodes when they are not yet.\<close>

definition add_edge :: "digraph \<Rightarrow> string \<Rightarrow> string \<Rightarrow> digraph" where
  "add_edge G u v =
     (let G' = ensure_node (ensure_node G u) v
      in if (u, v) \<in> set (edges G') then G' else G'\<lparr>edges := edges G' @ [(u, v)]\<rparr>)"

text \<open>Class \<open>ImportsGraph\<close>.\<close>

record ImportsGraph =
  imports_tree :: digraph
  imports_graph :: digraph

definition ImportsGraph_init :: ImportsGraph where
  "ImportsGraph_init = \<lparr>imports_tree = empty_digraph, imports_graph = empty_digraph\<rparr>"

definition truthy :: "string option \<Rightarrow> bool" where
  "truthy s = (case s of None \<Rightarrow> False | Some x \<Rightarrow> x \<noteq> [])"

definition ImportsGraph_contains :: "ImportsGraph \<Rightarrow> string \<Rightarrow> bool" where
  "ImportsGraph_contains g item = has_node (imports_tree g) item"

definition ImportsGraph_add :: "ImportsGraph \<Rightarrow> string \<Rightarrow> holder \<Rightarrow> string option \<Rightarrow> ImportsGraph" where
  "ImportsGraph_add g import_url parsed via_import =
     (let g1 = (if \<not> has_node (imports_tree g) import_url
                then \<lparr>imports_tree = add_node (imports_tree g) import_url parsed,
                      imports_graph = add_node (imports_graph g) import_url parsed\<rparr>
                else g)
      in if truthy via_import
         then \<lparr>imports_tree = add_edge (imports_tree g1) import_url (the via_import),
               imports_graph = add_edge (imports_graph g1) import_url (the via_import)\<rparr>
         else g1)"

definition add_graph_dependency :: "ImportsGraph \<Rightarrow> string \<Rightarrow> string option \<Rightarrow> ImportsGraph" where
  "add_graph_dependency g import_url via_import =
     (if truthy via_import
      then g\<lparr>imports_graph := add_edge (imports_graph g) import_url (the via_import)\<rparr>
      else g)"

section \<open>What lies outside the repository\<close>

text \<open>
  The file system (\<open>os.path.exists\<close>, \<open>os.path.abspath\<close>), the injected resolver,
  the YAML loader (called with the raw text, the import as written and its location),
  \<open>networkx.topological_sort\<close> and Python's text of a list or a dict.
\<close>

record env =
  path_exists :: "string \<Rightarrow> bool"
  abspath :: "string \<Rightarrow> string"
  fetch_import :: "string \<Rightarrow> error + string"
  yaml_load :: "string \<Rightarrow> string \<Rightarrow> string \<Rightarrow> error + holder"
  nx_topological_sort :: "digraph \<Rightarrow> error + string list"
  py_str :: "holder \<Rightarrow> string"

text \<open>
  The contract of \<open>networkx.topological_sort\<close>: the list holds every node once, and
  an edge from \<open>u\<close> to \<open>v\<close> has \<open>u\<close> before \<open>v\<close>.
\<close>

fun precedes :: "'a \<Rightarrow> 'a \<Rightarrow> 'a list \<Rightarrow> bool" where
  "precedes a b [] = False"
| "precedes a b (x # xs) = (if x = a then b \<in> set xs else precedes a b xs)"

definition nx_topological_order :: "digraph \<Rightarrow> string list \<Rightarrow> bool" where
  "nx_topological_order G ts =
     (distinct ts \<and> set ts = set (map fst (nodes G))
      \<and> list_all (\<lambda>e. precedes (fst e) (snd e) ts) (edges G))"

text \<open>
  \<open>ImportsGraph.topological_sort\<close>: the reversed topological order of the tree, each
  node with its \<open>parsed\<close> attribute.
\<close>

definition node_parsed :: "digraph \<Rightarrow> string \<Rightarrow> error + holder" where
  "node_parsed G n =
     (case map_of (nodes G) n of
        None \<Rightarrow> Inl (KeyError n)
      | Some None \<Rightarrow> Inl (KeyError ''parsed'')
      | Some (Some p) \<Rightarrow> Inr p)"

fun import_entries :: "digraph \<Rightarrow> string list \<Rightarrow> error + (string \<times> holder) list" where
  "import_entries G [] = Inr []"
| "import_entries G (n # ns) =
     (case node_parsed G n of
        Inl e \<Rightarrow> Inl e
      | Inr p \<Rightarrow> (case import_entries G ns of Inl e \<Rightarrow> Inl e | Inr r \<Rightarrow> Inr ((n, p) # r)))"

definition ImportsGraph_topological_sort :: "env \<Rightarrow> ImportsGraph \<Rightarrow> error + (string \<times> holder) list" where
  "ImportsGraph_topological_sort E g =
     (case nx_topological_sort E (imports_tree g) of
        Inl e \<Rightarrow> Inl e
      | Inr ts \<Rightarrow> import_entries (imports_tree g) (rev ts))"

section \<open>Class ImportsLoader\<close>

text \<open>\<open>os.path.join\<close> of POSIX, on two parts.\<close>

definition os_path_join :: "string \<Rightarrow> string \<Rightarrow> string" where
  "os_path_join a b =
     (if b \<noteq> [] \<and> hd b = CHR ''/'' then b
      else if a = [] \<or> last a = CHR ''/'' then a @ b
      else a @ ''/'' @ b)"

definition get_resource_location :: "env \<Rightarrow> string \<Rightarrow> string option \<Rightarrow> string option" where
  "get_resource_location E resource_name resources_base_url =
     (if takeWhile (\<lambda>c. c \<noteq> CHR '':'') resource_name \<in> set [''http'', ''https'', ''file'', ''ftp'']
      then Some resource_name
      else if path_exists E resource_name then Some (abspath E resource_name)
      else if truthy resources_base_url
      then Some (os_path_join (the resources_base_url) resource_name)
      else None)"

text \<open>\<open>_merge_into_dict_or_throw_on_duplicate\<close>; the updated \<open>to_dict_holder\<close> is returned.\<close>

fun merge_into_dict_loop :: "string \<Rightarrow> (string \<times> holder) list \<Rightarrow> holder \<Rightarrow> error + holder" where
  "merge_into_dict_loop key_name [] to_dict = Inr to_dict"
| "merge_into_dict_loop key_name (kv # rest) to_dict =
     (case get_item to_dict (fst kv) of
        Inl e \<Rightarrow> Inl e
      | Inr (Some found) \<Rightarrow> Inl (MergeConflict key_name (fst kv))
      | Inr None \<Rightarrow>
          (case to_dict of
             Dict items \<Rightarrow> merge_into_dict_loop key_name rest (Dict (setitem items (fst kv) (snd kv)))
           | other \<Rightarrow> Inl ValueError))"

definition merge_into_dict_or_throw_on_duplicate :: "holder \<Rightarrow> holder \<Rightarrow> string \<Rightarrow> error + holder" where
  "merge_into_dict_or_throw_on_duplicate from_dict to_dict key_name =
     (case from_dict of
        Dict items \<Rightarrow> merge_into_dict_loop key_name items to_dict
      | other \<Rightarrow> Inl AttributeError)"

definition assert_mergeable :: "string \<Rightarrow> error" where
  "assert_mergeable key = NonMergeableField key"

text \<open>
  \<open>merge_parsed_into_combined\<close>. The accumulator is the dict of \<open>holder_result\<close>,
  which \<open>_combine_imports\<close> sets to \<open>{}\<close> before the first merge; the updated dict is
  returned. The parameter \<open>version\<close> of the source is not read by it.
\<close>

fun merge_items :: "string list \<Rightarrow> (string \<times> holder) list \<Rightarrow> (string \<times> holder) list
    \<Rightarrow> error + (string \<times> holder) list" where
  "merge_items mno [] combined = Inr combined"
| "merge_items mno (kv # rest) combined =
     (if fst kv \<in> set IGNORE then merge_items mno rest combined
      else case find (\<lambda>c. fst c = fst kv) combined of
        None \<Rightarrow> merge_items mno rest (setitem combined (fst kv) (snd kv))
      | Some found \<Rightarrow>
          if fst kv \<in> set mno
          then (case merge_into_dict_or_throw_on_duplicate (snd kv) (snd found) (fst kv) of
                  Inl e \<Rightarrow> Inl e
                | Inr to_dict \<Rightarrow> merge_items mno rest (setitem combined (fst kv) to_dict))
          else Inl (assert_mergeable (fst kv)))"

definition merge_parsed_into_combined :: "(string \<times> holder) list \<Rightarrow> holder \<Rightarrow> string list option
    \<Rightarrow> error + (string \<times> holder) list" where
  "merge_parsed_into_combined combined parsed_imported merge_no_override =
     (let mno = (case merge_no_override of
                   None \<Rightarrow> MERGE_NO_OVERRIDE
                 | Some m \<Rightarrow> if m = [] then MERGE_NO_OVERRIDE else m)
      in case parsed_imported of
           Dict items \<Rightarrow> merge_items mno items combined
         | other \<Rightarrow> Inl AttributeError)"

text \<open>
  \<open>_validate_version\<close>. A holder that \<open>get_item\<close> returns is a true value whatever it
  holds; only the missing item is false. The value of a string scalar is compared and
  formatted as it is, \<open>None\<close> prints as \<open>None\<close>, and a list or a dict differs from
  every string and prints as the environment says.
\<close>

fun value_differs :: "holder \<Rightarrow> string \<Rightarrow> bool" where
  "value_differs (Leaf s) t = (s \<noteq> t)"
| "value_differs h t = True"

fun format_value :: "env \<Rightarrow> holder \<Rightarrow> string" where
  "format_value E (Leaf s) = s"
| "format_value E Null = ''None''"
| "format_value E h = py_str E h"

definition validate_version :: "env \<Rightarrow> string \<Rightarrow> string \<Rightarrow> holder \<Rightarrow> error + unit" where
  "validate_version E dsl_version import_url parsed_imported =
     (case get_item parsed_imported VERSION of
        Inl e \<Rightarrow> Inl e
      | Inr None \<Rightarrow> Inr ()
      | Inr (Some version_item) \<Rightarrow>
          if value_differs (snd version_item) dsl_version
             \<and> format_value E (snd version_item) @ ''_0'' \<noteq> dsl_version
          then Inl (DifferentVersion dsl_version import_url (snd version_item))
          else Inr ())"

text \<open>
  \<open>_build_ordered_imports\<close>. The state of the walk is the graph and the locations
  handed to the resolver so far. The walk ends on every finite set of documents; the
  fuel bounds the depth of the recursion, and a walk that runs out of it says so.
\<close>

definition location :: "string option \<Rightarrow> string" where
  "location v = (if truthy v then the v else ''root'')"

record build_state =
  graph :: ImportsGraph
  fetched :: "string list"

datatype outcome = Done | Raised error | OutOfFuel

fun build_ordered_imports_recursive ::
    "nat \<Rightarrow> env \<Rightarrow> string option \<Rightarrow> holder \<Rightarrow> string option \<Rightarrow> build_state \<Rightarrow> build_state \<times> outcome"
and import_loop ::
    "nat \<Rightarrow> env \<Rightarrow> string option \<Rightarrow> holder list \<Rightarrow> string option \<Rightarrow> build_state \<Rightarrow> build_state \<times> outcome"
where
  "build_ordered_imports_recursive fuel E base current_holder current_import st =
     (case get_item current_holder IMPORTS of
        Inl e \<Rightarrow> (st, Raised e)
      | Inr None \<Rightarrow> (st, Done)
      | Inr (Some imports_item) \<Rightarrow>
          (case iterate_restored (snd imports_item) of
             Inl e \<Rightarrow> (st, Raised e)
           | Inr items \<Rightarrow> import_loop fuel E base items current_import st))"
| "import_loop fuel E base [] current_import st = (st, Done)"
| "import_loop fuel E base (another_import # rest) current_import st =
     (case another_import of
        Leaf name \<Rightarrow>
          (case get_resource_location E name base of
             None \<Rightarrow> (st, Raised (NoSuitableLocation name))
           | Some import_url \<Rightarrow>
               if ImportsGraph_contains (graph st) import_url
               then import_loop fuel E base rest current_import
                      (st\<lparr>graph := add_graph_dependency (graph st) import_url
                                      (Some (location current_import))\<rparr>)
               else
                 (let st1 = st\<lparr>fetched := fetched st @ [import_url]\<rparr>
                  in case fetch_import E import_url of
                       Inl e \<Rightarrow> (st1, Raised e)
                     | Inr raw \<Rightarrow>
                         (case yaml_load E raw name import_url of
                            Inl e \<Rightarrow> (st1, Raised e)
                          | Inr imported \<Rightarrow>
                              (let st2 = st1\<lparr>graph := ImportsGraph_add (graph st1) import_url imported
                                                         (Some (location current_import))\<rparr>
                               in case fuel of
                                    0 \<Rightarrow> (st2, OutOfFuel)
                                  | Suc fuel' \<Rightarrow>
                                      (case build_ordered_imports_recursive fuel' E base imported
                                              (Some import_url) st2 of
                                         (st3, Done) \<Rightarrow> import_loop fuel E base rest current_import st3
                                       | (st3, other) \<Rightarrow> (st3, other))))))
      | other \<Rightarrow> (st, Raised AttributeError))"

definition build_imports_graph ::
    "nat \<Rightarrow> env \<Rightarrow> holder \<Rightarrow> string option \<Rightarrow> string option \<Rightarrow> build_state \<times> outcome" where
  "build_imports_graph fuel E parsed_dsl dsl_location base =
     build_ordered_imports_recursive fuel E base parsed_dsl dsl_location
       \<lparr>graph = ImportsGraph_add ImportsGraph_init (location dsl_location) parsed_dsl None,
        fetched = []\<rparr>"

definition build_ordered_imports ::
    "nat \<Rightarrow> env \<Rightarrow> holder \<Rightarrow> string option \<Rightarrow> string option
     \<Rightarrow> (error + (string \<times> holder) list) option" where
  "build_ordered_imports fuel E parsed_dsl dsl_location base =
     (case build_imports_graph fuel E parsed_dsl dsl_location base of
        (st, Done) \<Rightarrow> Some (ImportsGraph_topological_sort E (graph st))
      | (st, Raised e) \<Rightarrow> Some (Inl e)
      | (st, OutOfFuel) \<Rightarrow> None)"

text \<open>
  \<open>_combine_imports\<close>, from the ordered imports on. The result is the dict of
  \<open>holder_result\<close>; its last item is what \<open>get_item\<close> gave for the root's version,
  the pair \<open>(None, None)\<close> when the root has none.
\<close>

fun merge_ordered :: "env \<Rightarrow> bool \<Rightarrow> string \<Rightarrow> (string \<times> holder) list \<Rightarrow> (string \<times> holder) list
    \<Rightarrow> error + (string \<times> holder) list" where
  "merge_ordered E validate version_raw [] combined = Inr combined"
| "merge_ordered E validate version_raw (imported # rest) combined =
     (case (if validate then validate_version E version_raw (fst imported) (snd imported)
            else Inr ()) of
        Inl e \<Rightarrow> Inl e
      | Inr u \<Rightarrow>
          (case merge_parsed_into_combined combined (snd imported) None of
             Inl e \<Rightarrow> Inl e
           | Inr combined' \<Rightarrow> merge_ordered E validate version_raw rest combined'))"

fun set_version_item :: "(string \<times> holder) option \<Rightarrow> (string \<times> holder) list
    \<Rightarrow> (string option \<times> holder option) list" where
  "set_version_item None combined = map (\<lambda>kv. (Some (fst kv), Some (snd kv))) combined @ [(None, None)]"
| "set_version_item (Some item) combined =
     map (\<lambda>kv. (Some (fst kv), Some (snd kv))) (setitem combined (fst item) (snd item))"

definition combine_ordered_imports ::
    "env \<Rightarrow> holder \<Rightarrow> string \<Rightarrow> bool \<Rightarrow> (string \<times> holder) list
     \<Rightarrow> error + (string option \<times> holder option) list" where
  "combine_ordered_imports E parsed_dsl version_raw validate ordered_imports =
     (case get_item parsed_dsl VERSION of
        Inl e \<Rightarrow> Inl e
      | Inr version_item \<Rightarrow>
          (case merge_ordered E validate version_raw ordered_imports [] of
             Inl e \<Rightarrow> Inl e
           | Inr combined \<Rightarrow> Inr (set_version_item version_item combined)))"

definition combine_imports ::
    "nat \<Rightarrow> env \<Rightarrow> holder \<Rightarrow> string option \<Rightarrow> string option \<Rightarrow> string \<Rightarrow> bool
     \<Rightarrow> (error + (string option \<times> holder option) list) option" where
  "combine_imports fuel E parsed_dsl dsl_location base version_raw validate =
     (case build_ordered_imports fuel E parsed_dsl dsl_location base of
        None \<Rightarrow> None
      | Some (Inl e) \<Rightarrow> Some (Inl e)
      | Some (Inr ordered_imports) \<Rightarrow>
          Some (combine_ordered_imports E parsed_dsl version_raw validate ordered_imports))"

section \<open>The words of the specification\<close>

text \<open>
  The root's version with a trailing \<open>_0\<close> removed, as the specification words the
  version check.
\<close>

definition without_trailing_0 :: "string \<Rightarrow> string" where
  "without_trailing_0 v =
     (if 2 \<le> length v \<and> drop (length v - 2) v = ''_0'' then take (length v - 2) v else v)"

text \<open>The items of a merged result that sit under one of the ignored section names.\<close>

definition ignored_items :: "(string option \<times> holder option) list \<Rightarrow> (string option \<times> holder option) list" where
  "ignored_items res = filter (\<lambda>kv. fst kv \<in> set (map Some IGNORE)) res"

section \<open>A resolver over a table and a sort of the library's contract\<close>

text \<open>
  For the examples: a topological sort that takes, as long as it can, the first node with
  no edge from a node still to come, and fails when nodes are left and none is free; and
  an environment whose resolver and loader read the documents from a table keyed by
  location, with no local files.
\<close>

definition is_source :: "(string \<times> string) list \<Rightarrow> string list \<Rightarrow> string \<Rightarrow> bool" where
  "is_source es remaining v = (\<not> list_ex (\<lambda>e. snd e = v \<and> fst e \<in> set remaining) es)"

fun sort_sources :: "nat \<Rightarrow> (string \<times> string) list \<Rightarrow> string list \<Rightarrow> string list option" where
  "sort_sources n es [] = Some []"
| "sort_sources 0 es (v # vs) = None"
| "sort_sources (Suc n) es (v # vs) =
     (case find (is_source es (v # vs)) (v # vs) of
        None \<Rightarrow> None
      | Some s \<Rightarrow> map_option ((#) s) (sort_sources n es (removeAll s (v # vs))))"

definition reference_topological_sort :: "digraph \<Rightarrow> error + string list" where
  "reference_topological_sort G =
     (case sort_sources (length (nodes G)) (edges G) (map fst (nodes G)) of
        None \<Rightarrow> Inl NetworkXUnfeasible
      | Some ts \<Rightarrow> Inr ts)"

definition table_env :: "(string \<times> holder) list \<Rightarrow> env" where
  "table_env docs =
     \<lparr>path_exists = (\<lambda>p. False),
      abspath = (\<lambda>p. CHR ''/'' # p),
      fetch_import = (\<lambda>url. if url \<in> set (map fst docs) then Inr url else Inl (CollaboratorError url)),
      yaml_load = (\<lambda>raw name url. case map_of docs raw of
                                   Some d \<Rightarrow> Inr d
                                 | None \<Rightarrow> Inl (CollaboratorError name)),
      nx_topological_sort = reference_topological_sort,
      py_str = (\<lambda>h. ''<holder>'')\<rparr>"

section \<open>Invariants of the walk over the imports\<close>

text \<open>
  Every node of the tree other than \<open>r\<close> has a path of tree edges to \<open>r\<close>.
\<close>

definition reaches_root :: "string \<Rightarrow> digraph \<Rightarrow> bool" where
  "reaches_root r T = (\<forall>n \<in> set (map fst (nodes T)). n = r \<or> (n, r) \<in> (set (edges T))\<^sup>+)"

text \<open>
  What the walk keeps true of the tree of first discoveries, with \<open>r\<close> the key of the
  root document: the keys are distinct, \<open>r\<close> is one of them, the nodes in reverse order
  of registration are a topological order, every node leads to \<open>r\<close>, and every node
  has its \<open>parsed\<close> attribute.
\<close>

definition tree_inv :: "string \<Rightarrow> digraph \<Rightarrow> bool" where
  "tree_inv r T =
     (distinct (map fst (nodes T)) \<and> r \<in> set (map fst (nodes T))
      \<and> nx_topological_order T (rev (map fst (nodes T)))
      \<and> reaches_root r T
      \<and> list_all (\<lambda>na. snd na \<noteq> None) (nodes T))"

text \<open>\<open>os.path.abspath\<close> never returns the empty string.\<close>

definition abspath_ok :: "env \<Rightarrow> bool" where
  "abspath_ok E = (\<forall>p. abspath E p \<noteq> [])"

text \<open>
  The state of the walk before a step (the tree is sound, no location was handed to the
  resolver twice, and every such location is a node) and what a step leaves behind: the
  tree stays sound and loses no node, no location was fetched twice, and when the step
  ended without an exception every fetched location is a node.
\<close>

definition walk_ok :: "string \<Rightarrow> build_state \<Rightarrow> bool" where
  "walk_ok r st =
     (tree_inv r (imports_tree (graph st)) \<and> distinct (fetched st)
      \<and> set (fetched st) \<subseteq> set (map fst (nodes (imports_tree (graph st)))))"

definition walk_post :: "string \<Rightarrow> build_state \<Rightarrow> build_state \<Rightarrow> outcome \<Rightarrow> bool" where
  "walk_post r st st' out =
     (tree_inv r (imports_tree (graph st'))
      \<and> set (map fst (nodes (imports_tree (graph st)))) \<subseteq> set (map fst (nodes (imports_tree (graph st'))))
      \<and> distinct (fetched st')
      \<and> (out = Done \<longrightarrow> set (fetched st') \<subseteq> set (map fst (nodes (imports_tree (graph st'))))))"

text \<open>
  What a step of the walk keeps of the registered documents: every key of the tree before
  the step is a key of the tree after it, with the same document.
\<close>

definition keeps_registered :: "build_state \<Rightarrow> build_state \<Rightarrow> bool" where
  "keeps_registered st st' =
     (\<forall>k. has_node (imports_tree (graph st)) k \<longrightarrow>
          has_node (imports_tree (graph st')) k
          \<and> node_parsed (imports_tree (graph st')) k = node_parsed (imports_tree (graph st)) k)"

text \<open>
  A closed configuration over the locations \<open>us\<close>: an import item is a string that
  resolves to one of them; a document is a dict whose \<open>imports\<close>, when it has any, can
  be iterated and holds such items only; and each of the locations is fetched and loaded,
  under whatever name it was imported, into such a document. Cycles are not excluded.
  \<open>unregistered\<close> counts the locations that are not yet keys of the tree.
\<close>

definition resolves_into :: "env \<Rightarrow> string option \<Rightarrow> string list \<Rightarrow> holder \<Rightarrow> bool" where
  "resolves_into E base us h =
     (case h of
        Leaf name \<Rightarrow> (case get_resource_location E name base of
                        None \<Rightarrow> False
                      | Some u \<Rightarrow> u \<in> set us)
      | other \<Rightarrow> False)"

definition well_formed :: "env \<Rightarrow> string option \<Rightarrow> string list \<Rightarrow> holder \<Rightarrow> bool" where
  "well_formed E base us d =
     (case get_item d IMPORTS of
        Inl e \<Rightarrow> False
      | Inr None \<Rightarrow> True
      | Inr (Some item) \<Rightarrow>
          (case iterate_restored (snd item) of
             Inl e \<Rightarrow> False
           | Inr items \<Rightarrow> list_all (resolves_into E base us) items))"

definition closed_config :: "env \<Rightarrow> string option \<Rightarrow> string list \<Rightarrow> bool" where
  "closed_config E base us =
     (\<forall>u \<in> set us. \<forall>name.
        (case fetch_import E u of
           Inl e \<Rightarrow> False
         | Inr raw \<Rightarrow> (case yaml_load E raw name u of
                         Inl e \<Rightarrow> False
                       | Inr d \<Rightarrow> well_formed E base us d)))"

definition unregistered :: "string list \<Rightarrow> build_state \<Rightarrow> nat" where
  "unregistered us st = card (set us - set (map fst (nodes (imports_tree (graph st)))))"

text \<open>The tree of first discoveries that the walk over a root document leaves.\<close>

definition built_tree :: "nat \<Rightarrow> env \<Rightarrow> holder \<Rightarrow> string option \<Rightarrow> string option \<Rightarrow> digraph" where
  "built_tree fuel E parsed_dsl dsl_location base =
     imports_tree (graph (fst (build_imports_graph fuel E parsed_dsl dsl_location base)))"

text \<open>
  Two configurations for the examples: the root imports \<open>a\<close>, \<open>a\<close> imports
  \<open>b\<close> and \<open>b\<close> imports \<open>a\<close>; and a diamond in which the root imports
  \<open>a\<close> and \<open>b\<close>, which both import \<open>c\<close>.
\<close>

definition cycle_docs :: "(string \<times> holder) list" where
  "cycle_docs = [(''file:a'', Dict [(''imports'', Seq [Leaf ''file:b''])]),
                 (''file:b'', Dict [(''imports'', Seq [Leaf ''file:a''])])]"

definition cycle_root :: holder where
  "cycle_root = Dict [(''imports'', Seq [Leaf ''file:a''])]"

definition diamond_docs :: "(string \<times> holder) list" where
  "diamond_docs = [(''file:a'', Dict [(''imports'', Seq [Leaf ''file:c'']), (''inputs'', Dict [])]),
                   (''file:b'', Dict [(''imports'', Seq [Leaf ''file:c'']), (''outputs'', Dict [])]),
                   (''file:c'', Dict [(''plugins'', Dict [])])]"

definition diamond_root :: holder where
  "diamond_root = Dict [(''imports'', Seq [Leaf ''file:a'', Leaf ''file:b'']),
                        (''description'', Leaf ''diamond'')]"

definition diamond_graph :: ImportsGraph where
  "diamond_graph = graph (fst (build_imports_graph 2 (table_env diamond_docs) diamond_root None None))"

text \<open>
  The state in which the walk over the diamond starts, with the root registered, and the
  ordered imports of the diamond.
\<close>

definition diamond_start :: build_state where
  "diamond_start =
     \<lparr>graph = ImportsGraph_add ImportsGraph_init ''root'' diamond_root None, fetched = []\<rparr>"

definition diamond_ordered :: "(string \<times> holder) list" where
  "diamond_ordered =
     [(''root'', Dict [(''imports'', Seq [Leaf ''file:a'', Leaf ''file:b'']),
                      (''description'', Leaf ''diamond'')]),
      (''file:b'', Dict [(''imports'', Seq [Leaf ''file:c'']), (''outputs'', Dict [])]),
      (''file:a'', Dict [(''imports'', Seq [Leaf ''file:c'']), (''inputs'', Dict [])]),
      (''file:c'', Dict [(''plugins'', Dict [])])]"

text \<open>
  The state of the walk over the cycle when \<open>b\<close>'s import of \<open>a\<close> is met: the
  root, \<open>a\<close> and \<open>b\<close> are registered, each through its importer.
\<close>

definition cycle_met_again :: build_state where
  "cycle_met_again =
     \<lparr>graph = ImportsGraph_add
                (ImportsGraph_add
                   (ImportsGraph_add ImportsGraph_init ''root'' cycle_root None)
                   ''file:a'' (Dict [(''imports'', Seq [Leaf ''file:b''])]) (Some ''root''))
                ''file:b'' (Dict [(''imports'', Seq [Leaf ''file:a''])]) (Some ''file:a''),
      fetched = [''file:a'', ''file:b'']\<rparr>"

section \<open>Data types\<close>

text \<open>
  The Python values that the elements of a schema hold: \<open>None\<close>, scalars, lists and
  dicts. A dict is kept as an association list in the order of its items;
  \<open>dict_setitem\<close> is \<open>d[k] = v\<close> and \<open>dict_update\<close> is \<open>d.update(other)\<close>.
\<close>

datatype pyvalue =
    PNone
  | PBool bool
  | PInt int
  | PStr string
  | PList "pyvalue list"
  | PDict "(string \<times> pyvalue) list"

fun dict_setitem :: "(string \<times> 'v) list \<Rightarrow> string \<Rightarrow> 'v \<Rightarrow> (string \<times> 'v) list" where
  "dict_setitem [] k v = [(k, v)]"
| "dict_setitem (kv # rest) k v =
     (if fst kv = k then (k, v) # rest else kv # dict_setitem rest k v)"

definition dict_update :: "(string \<times> 'v) list \<Rightarrow> (string \<times> 'v) list \<Rightarrow> (string \<times> 'v) list" where
  "dict_update d other = fold (\<lambda>kv acc. dict_setitem acc (fst kv) (snd kv)) other d"

text \<open>
  What \<open>DataType\<close> reads of a data type: its name, the \<open>derived_from\<close> item of
  its initial value, and the initial values of its \<open>SchemaPropertyType\<close> descendants,
  one for each property, \<open>None\<close> for a property that declares no type.
\<close>

record data_type =
  dt_name :: string
  derived_from :: "string option"
  property_types :: "string option list"

text \<open>
  What the module takes from outside the sources: the tuple
  \<open>constants.USER_PRIMITIVE_TYPES\<close>; \<open>utils.parse_value\<close>, called with the value,
  the type name, the data types, the node name and the path (its two messages and
  \<open>raise_on_missing_property=False\<close> are the same at every call); and the dict that
  \<open>DataType.parse\<close> returns, built by \<open>build_dict_result\<close>,
  \<open>utils.merge_schemas\<close> and \<open>fix_properties\<close> from the element, the parsed parent
  type and the merged component types.
\<close>

record dt_env =
  USER_PRIMITIVE_TYPES :: "string list"
  parse_value :: "pyvalue \<Rightarrow> string option \<Rightarrow> (string \<times> pyvalue) list \<Rightarrow> string \<Rightarrow> string list
                  \<Rightarrow> error + pyvalue"
  build_result :: "data_type \<Rightarrow> pyvalue option \<Rightarrow> (string \<times> pyvalue) list \<Rightarrow> pyvalue"

text \<open>
  \<open>SchemaPropertyDefault.parse\<close>. \<open>type_name\<close> is the parsed type of the sibling
  \<open>SchemaPropertyType\<close>, \<open>initial_value\<close> the declared default (\<open>None\<close> when
  there is none), \<open>component_types\<close> the resolved requirement (\<open>None\<close> when it is
  not resolved), and the two names are those of the property and of the data type.
\<close>

definition SchemaPropertyDefault_parse ::
    "dt_env \<Rightarrow> string option \<Rightarrow> pyvalue \<Rightarrow> (string \<times> pyvalue) list option \<Rightarrow> string \<Rightarrow> string
     \<Rightarrow> error + pyvalue" where
  "SchemaPropertyDefault_parse D type_name initial_value component_types prop_name current_type =
     (case (if initial_value = PNone
            then (if type_name \<noteq> None \<and> the type_name \<notin> set (USER_PRIMITIVE_TYPES D)
                  then Some (PDict [])
                  else None)
            else Some initial_value) of
        None \<Rightarrow> Inr PNone
      | Some v \<Rightarrow>
          parse_value D v type_name
            (case component_types of None \<Rightarrow> [] | Some ct \<Rightarrow> ct)
            current_type [prop_name])"

text \<open>
  Modelled from the spec: class \<open>Element\<close> is not among the sources. A child element
  of a schema property has the name of its key and the parsed result as its value; the spec
  gives the default of a property with no declared default as absent from the parsed
  property unless a default was derived for it, so an element counts as defined when the
  document declares it or its parsed result is not \<open>None\<close>.
\<close>

record child =
  child_name :: string
  child_value :: pyvalue
  declared :: bool

definition defined :: "child \<Rightarrow> bool" where
  "defined c = (declared c \<or> child_value c \<noteq> PNone)"

text \<open>
  \<open>SchemaProperty.parse\<close>: the dict of the defined children, and the declared default
  under \<open>initial_default\<close> when the property sits in the schema of a data type
  (\<open>SchemaWithInitialDefault\<close>).
\<close>

definition SchemaProperty_parse :: "child list \<Rightarrow> bool \<Rightarrow> pyvalue \<Rightarrow> (string \<times> pyvalue) list" where
  "SchemaProperty_parse children in_schema_with_initial_default initial_default =
     (let result = dict_update []
                     (map (\<lambda>c. (child_name c, child_value c)) (filter defined children))
      in if in_schema_with_initial_default
         then dict_setitem result ''initial_default'' initial_default
         else result)"











definition example_dt_env :: dt_env where
  "example_dt_env =
     \<lparr>USER_PRIMITIVE_TYPES = [''string'', ''integer'', ''float'', ''boolean'', ''list'', ''dict'', ''regex''],
      parse_value = (\<lambda>v type_name data_types node_name path.
                       Inr (PDict [(''parsed'', v), (''types'', PList (map (\<lambda>kv. PStr (fst kv)) data_types))])),
      build_result = (\<lambda>self super_type merged. PDict [(''properties'', PDict [])])\<rparr>"


section \<open>Facts about dicts and the merge loops\<close>

lemma find_key_Some:
  "find (\<lambda>kv. fst kv = k) items = Some item \<Longrightarrow> fst item = k \<and> item \<in> set items"
  by (induction items) (auto split: if_splits)

lemma find_key_None: "(find (\<lambda>kv. fst kv = k) items = None) = (k \<notin> set (map fst items))"
  by (induction items) auto

lemma find_key_map_of: "map_option snd (find (\<lambda>kv. fst kv = k) items) = map_of items k"
  by (induction items) auto

lemma keys_setitem: "fst ` set (setitem c k v) = insert k (fst ` set c)"
  by (induction c) auto

lemma map_of_setitem: "map_of (setitem c k v) = (map_of c)(k \<mapsto> v)"
  by (induction c) (auto simp: fun_eq_iff)

lemma setitem_new: "k \<notin> set (map fst c) \<Longrightarrow> setitem c k v = c @ [(k, v)]"
  by (induction c) auto

lemma find_setitem:
  "find (\<lambda>kv. fst kv = k') (setitem c k v)
     = (if k' = k then Some (k, v) else find (\<lambda>kv. fst kv = k') c)"
  by (induction c) auto

lemma no_override_not_ignored: "S \<in> set MERGE_NO_OVERRIDE \<Longrightarrow> S \<notin> set IGNORE"
  by (auto simp: MERGE_NO_OVERRIDE_def IGNORE_def INTERFACES_def NODE_TYPES_def PLUGINS_def
      WORKFLOWS_def RELATIONSHIPS_def GROUPS_def DATA_TYPES_def DSL_DEFINITIONS_def IMPORTS_def
      VERSION_def)

lemma merge_into_dict_loop_result:
  "distinct (map fst b) \<Longrightarrow>
   merge_into_dict_loop S b (Dict a) =
     (case find (\<lambda>kv. fst kv \<in> set (map fst a)) b of
        None \<Rightarrow> Inr (Dict (a @ b))
      | Some kv \<Rightarrow> Inl (MergeConflict S (fst kv)))"
proof (induction b arbitrary: a)
  case Nil
  then show ?case by simp
next
  case (Cons kv b)
  show ?case
  proof (cases "fst kv \<in> set (map fst a)")
    case True
    then obtain found where "find (\<lambda>c. fst c = fst kv) a = Some found"
      using find_key_None [of "fst kv" a] by (cases "find (\<lambda>c. fst c = fst kv) a") auto
    with True show ?thesis by simp
  next
    case False
    then have none: "find (\<lambda>c. fst c = fst kv) a = None"
      by (simp add: find_key_None)
    have new: "setitem a (fst kv) (snd kv) = a @ [kv]"
      using False by (simp add: setitem_new)
    have same: "find (\<lambda>x. fst x \<in> set (map fst (a @ [kv]))) b = find (\<lambda>x. fst x \<in> set (map fst a)) b"
    proof (intro find_cong refl)
      fix x assume "x \<in> set b"
      then have "fst x \<in> fst ` set b" by (rule imageI)
      moreover from Cons.prems have "fst kv \<notin> fst ` set b" by simp
      ultimately have "fst x \<noteq> fst kv" by metis
      then show "(fst x \<in> set (map fst (a @ [kv]))) = (fst x \<in> set (map fst a))" by simp
    qed
    from Cons.prems have "distinct (map fst b)" by simp
    from Cons.IH [OF this, of "a @ [kv]"] none new same False
    show ?thesis by (simp split: option.splits)
  qed
qed

lemma merge_items_step:
  assumes "merge_items mno (kv # items) c = Inr res"
  obtains "fst kv \<in> set IGNORE" "merge_items mno items c = Inr res"
  | x where "fst kv \<notin> set IGNORE" "merge_items mno items (setitem c (fst kv) x) = Inr res"
      "find (\<lambda>c. fst c = fst kv) c = None \<and> x = snd kv
       \<or> fst kv \<in> set mno \<and> find (\<lambda>c. fst c = fst kv) c \<noteq> None"
  using assms by (auto split: if_splits option.splits sum.splits)

lemma merge_items_untouched:
  "merge_items mno items c = Inr res \<Longrightarrow> k \<notin> set (map fst items) \<Longrightarrow>
   find (\<lambda>kv. fst kv = k) res = find (\<lambda>kv. fst kv = k) c"
proof (induction items arbitrary: c)
  case Nil
  then show ?case by simp
next
  case (Cons kv items)
  from Cons.prems(2) have ne: "k \<noteq> fst kv" and notin: "k \<notin> set (map fst items)" by auto
  from Cons.prems(1) show ?case
  proof (cases rule: merge_items_step)
    case 1
    then show ?thesis using Cons.IH [OF _ notin] by simp
  next
    case (2 x)
    then show ?thesis using Cons.IH [OF _ notin, of "setitem c (fst kv) x"] ne
      by (simp add: find_setitem)
  qed
qed

lemma merge_items_adopts:
  "merge_items mno items c = Inr res \<Longrightarrow> distinct (map fst items) \<Longrightarrow> (k, v) \<in> set items \<Longrightarrow>
   k \<notin> set mno \<Longrightarrow> k \<notin> set IGNORE \<Longrightarrow>
   k \<notin> set (map fst c) \<and> find (\<lambda>kv. fst kv = k) res = Some (k, v)"
proof (induction items arbitrary: c)
  case Nil
  then show ?case by simp
next
  case (Cons kv items)
  show ?case
  proof (cases "kv = (k, v)")
    case True
    with Cons.prems have notin: "k \<notin> set (map fst items)" by auto
    from Cons.prems(1) True Cons.prems(4,5)
    have none: "find (\<lambda>x. fst x = k) c = None"
      and rest: "merge_items mno items (setitem c k v) = Inr res"
      by (auto split: option.splits if_splits)
    from merge_items_untouched [OF rest notin] none show ?thesis
      by (simp add: find_setitem find_key_None)
  next
    case False
    with Cons.prems have mem: "(k, v) \<in> set items" and ne: "fst kv \<noteq> k"
      and d: "distinct (map fst items)"
      by (auto simp: rev_image_eqI)
    from Cons.prems(1) show ?thesis
    proof (cases rule: merge_items_step)
      case 1
      then show ?thesis using Cons.IH [OF _ d mem Cons.prems(4,5)] by simp
    next
      case (2 x)
      then show ?thesis
        using Cons.IH [OF _ d mem Cons.prems(4,5), of "setitem c (fst kv) x"] ne
        by (simp add: keys_setitem)
    qed
  qed
qed

lemma merge_items_alone:
  "distinct (map fst items) \<Longrightarrow> set (map fst c) \<inter> set (map fst items) = {} \<Longrightarrow>
   merge_items mno items c = Inr (c @ filter (\<lambda>kv. fst kv \<notin> set IGNORE) items)"
proof (induction items arbitrary: c)
  case Nil
  then show ?case by simp
next
  case (Cons kv items)
  from Cons.prems have new: "fst kv \<notin> set (map fst c)" and d: "distinct (map fst items)"
    and disj: "set (map fst c) \<inter> set (map fst items) = {}"
    and disj': "set (map fst (c @ [kv])) \<inter> set (map fst items) = {}"
    by auto
  from new have none: "find (\<lambda>x. fst x = fst kv) c = None" by (simp add: find_key_None)
  show ?case
    using Cons.IH [OF d disj] Cons.IH [OF d disj'] none setitem_new [OF new, of "snd kv"]
    by simp
qed

lemma merge_items_ignored:
  "merge_items mno items c = Inr res \<Longrightarrow> set (map fst c) \<inter> set IGNORE = {} \<Longrightarrow>
   set (map fst res) \<inter> set IGNORE = {}"
proof (induction items arbitrary: c)
  case Nil
  then show ?case by simp
next
  case (Cons kv items)
  from Cons.prems(1) show ?case
  proof (cases rule: merge_items_step)
    case 1
    then show ?thesis using Cons.IH [OF _ Cons.prems(2)] by simp
  next
    case (2 x)
    from 2(1) Cons.prems(2)
    have "set (map fst (setitem c (fst kv) x)) \<inter> set IGNORE = {}"
      by (simp add: keys_setitem)
    with 2(2) show ?thesis using Cons.IH by blast
  qed
qed


lemma IGNORE_not_no_override: "k \<in> set IGNORE \<Longrightarrow> k \<notin> set MERGE_NO_OVERRIDE"
  using no_override_not_ignored by blast

lemma VERSION_ignored: "VERSION \<in> set IGNORE"
  by (simp add: IGNORE_def)

lemma merge_items_conflict:
  assumes "distinct (map fst items)" and "(S, Dict b) \<in> set items" and "S \<in> set mno"
    and "S \<notin> set IGNORE" and "distinct (map fst b)"
    and "find (\<lambda>c. fst c = S) c = Some (S', Dict a)"
    and "set (map fst a) \<inter> set (map fst b) \<noteq> {}"
  shows "isl (merge_items mno items c)"
  using assms
proof (induction items arbitrary: c)
  case Nil
  then show ?case by simp
next
  case (Cons kv items)
  show ?case
  proof (cases "kv = (S, Dict b)")
    case True
    from Cons.prems(7) obtain key where ka: "key \<in> set (map fst a)" and kb: "key \<in> set (map fst b)"
      by blast
    from kb obtain x where xb: "x \<in> set b" and "fst x = key"
      by auto
    with ka have "x \<in> set b" and "fst x \<in> set (map fst a)"
      by simp_all
    then have "find (\<lambda>kv. fst kv \<in> set (map fst a)) b \<noteq> None"
      unfolding find_None_iff by blast
    then obtain hit where "find (\<lambda>kv. fst kv \<in> set (map fst a)) b = Some hit" by auto
    with merge_into_dict_loop_result [OF Cons.prems(5), of S a]
    have "merge_into_dict_or_throw_on_duplicate (Dict b) (Dict a) S = Inl (MergeConflict S (fst hit))"
      by (simp add: merge_into_dict_or_throw_on_duplicate_def)
    with True Cons.prems(3,4,6) show ?thesis by simp
  next
    case False
    with Cons.prems have mem: "(S, Dict b) \<in> set items" and d: "distinct (map fst items)"
      by auto
    from mem have "S \<in> fst ` set items" by force
    with Cons.prems(1) have ne: "fst kv \<noteq> S" by auto
    show ?thesis
    proof (cases "merge_items mno (kv # items) c")
      case (Inl e)
      then show ?thesis by simp
    next
      case (Inr res)
      then show ?thesis
      proof (cases rule: merge_items_step)
        case 1
        with Cons.IH [OF d mem Cons.prems(3,4,5,6,7)] Inr show ?thesis by simp
      next
        case (2 x)
        from Cons.prems(6) ne
        have "find (\<lambda>c. fst c = S) (setitem c (fst kv) x) = Some (S', Dict a)"
          by (simp add: find_setitem)
        from Cons.IH [OF d mem Cons.prems(3,4,5) this Cons.prems(7)] 2(2)
        show ?thesis by simp
      qed
    qed
  qed
qed

lemma merge_parsed_ignored:
  assumes "merge_parsed_into_combined c doc mno = Inr c'"
    and "set (map fst c) \<inter> set IGNORE = {}"
  shows "set (map fst c') \<inter> set IGNORE = {}"
proof (cases doc)
  case (Dict items)
  with assms(1) obtain m where "merge_items m items c = Inr c'"
    by (simp add: merge_parsed_into_combined_def Let_def)
  then show ?thesis using assms(2) by (rule merge_items_ignored)
qed (use assms(1) in \<open>simp_all add: merge_parsed_into_combined_def Let_def\<close>)

lemma merge_ordered_ignored:
  "merge_ordered E validate vr ordered c = Inr res \<Longrightarrow> set (map fst c) \<inter> set IGNORE = {} \<Longrightarrow>
   set (map fst res) \<inter> set IGNORE = {}"
proof (induction ordered arbitrary: c)
  case Nil
  then show ?case by simp
next
  case (Cons imported ordered)
  show ?case
  proof (cases "merge_parsed_into_combined c (snd imported) None")
    case (Inl e)
    with Cons.prems(1) show ?thesis by (simp split: sum.splits)
  next
    case (Inr c')
    with Cons.prems(1) have rest: "merge_ordered E validate vr ordered c' = Inr res"
      by (simp split: sum.splits)
    from merge_parsed_ignored [OF Inr Cons.prems(2)] have "set (map fst c') \<inter> set IGNORE = {}" .
    with rest show ?thesis by (rule Cons.IH)
  qed
qed

lemma ignored_items_map:
  "ignored_items (map (\<lambda>kv. (Some (fst kv), Some (snd kv))) c)
     = map (\<lambda>kv. (Some (fst kv), Some (snd kv))) (filter (\<lambda>kv. fst kv \<in> set IGNORE) c)"
  by (induction c) (auto simp: ignored_items_def)

lemma filter_ignored_clean:
  "set (map fst c) \<inter> set IGNORE = {} \<Longrightarrow> filter (\<lambda>kv. fst kv \<in> set IGNORE) c = []"
  by (induction c) auto

lemma ignored_items_set_version_item:
  assumes "set (map fst combined) \<inter> set IGNORE = {}"
  shows "ignored_items (set_version_item None combined) = []"
    and "ignored_items (set_version_item (Some (VERSION, v)) combined) = [(Some VERSION, Some v)]"
proof -
  have clean: "filter (\<lambda>kv. fst kv \<in> set IGNORE) combined = []"
    using assms by (rule filter_ignored_clean)
  have "ignored_items (set_version_item None combined)
      = ignored_items (map (\<lambda>kv. (Some (fst kv), Some (snd kv))) combined) @ ignored_items [(None, None)]"
    by (simp add: ignored_items_def)
  also have "\<dots> = []"
    unfolding ignored_items_map clean by (simp add: ignored_items_def)
  finally show "ignored_items (set_version_item None combined) = []" .
  from assms VERSION_ignored have "VERSION \<notin> set (map fst combined)" by blast
  then have new: "setitem combined VERSION v = combined @ [(VERSION, v)]"
    by (rule setitem_new)
  have "ignored_items (set_version_item (Some (VERSION, v)) combined)
      = map (\<lambda>kv. (Some (fst kv), Some (snd kv)))
          (filter (\<lambda>kv. fst kv \<in> set IGNORE) (combined @ [(VERSION, v)]))"
    unfolding ignored_items_map [symmetric] by (simp add: new)
  also have "\<dots> = [(Some VERSION, Some v)]"
    using clean VERSION_ignored by simp
  finally show "ignored_items (set_version_item (Some (VERSION, v)) combined) = [(Some VERSION, Some v)]" .
qed

lemma combine_ordered_imports_ignored:
  assumes "combine_ordered_imports E (Dict root_items) vr validate ordered = Inr res"
  shows "ignored_items res =
           (case find (\<lambda>kv. fst kv = VERSION) root_items of
              None \<Rightarrow> []
            | Some item \<Rightarrow> [(Some VERSION, Some (snd item))])"
proof (cases "merge_ordered E validate vr ordered []")
  case (Inl e)
  with assms show ?thesis by (simp add: combine_ordered_imports_def)
next
  case (Inr combined)
  with assms have r: "res = set_version_item (find (\<lambda>kv. fst kv = VERSION) root_items) combined"
    by (simp add: combine_ordered_imports_def)
  from merge_ordered_ignored [OF Inr] have clean: "set (map fst combined) \<inter> set IGNORE = {}"
    by simp
  show ?thesis
  proof (cases "find (\<lambda>kv. fst kv = VERSION) root_items")
    case None
    then show ?thesis
      unfolding r using ignored_items_set_version_item(1) [OF clean] by simp
  next
    case (Some item)
    from find_key_Some [OF this] have "fst item = VERSION" by (rule conjunct1)
    then obtain v where item: "item = (VERSION, v)" by (cases item) simp
    show ?thesis
      unfolding r Some item using ignored_items_set_version_item(2) [OF clean, of v]
      by simp
  qed
qed

lemma append_0_eq_iff:
  "(iv @ ''_0'' = root) = (iv \<noteq> root \<and> iv = without_trailing_0 root)"
proof (cases "2 \<le> length root \<and> drop (length root - 2) root = ''_0''")
  case True
  then have r: "root = take (length root - 2) root @ ''_0''"
    by (metis append_take_drop_id)
  show ?thesis
  proof
    assume "iv @ ''_0'' = root"
    then show "iv \<noteq> root \<and> iv = without_trailing_0 root"
      using True by (auto simp: without_trailing_0_def)
  next
    assume "iv \<noteq> root \<and> iv = without_trailing_0 root"
    then show "iv @ ''_0'' = root"
      using True r by (simp add: without_trailing_0_def)
  qed
next
  case False
  then have "iv @ ''_0'' \<noteq> root" by auto
  then show ?thesis using False by (auto simp: without_trailing_0_def)
qed

section \<open>Facts about the order and the walk\<close>

lemma precedes_in: "precedes a b xs \<Longrightarrow> a \<in> set xs \<and> b \<in> set xs"
  by (induction xs) (auto split: if_splits)

lemma precedes_irrefl: "distinct xs \<Longrightarrow> \<not> precedes a a xs"
  by (induction xs) auto

lemma precedes_snoc:
  "distinct (xs @ [x]) \<Longrightarrow> precedes a b (xs @ [x]) = (precedes a b xs \<or> (a \<in> set xs \<and> b = x))"
  by (induction xs) auto

lemma precedes_rev: "distinct xs \<Longrightarrow> precedes a b xs \<Longrightarrow> precedes b a (rev xs)"
proof (induction xs)
  case Nil
  then show ?case by simp
next
  case (Cons x xs)
  from Cons.prems(1) have d: "distinct (rev xs @ [x])" by simp
  show ?case
  proof (cases "x = a")
    case True
    with Cons.prems(2) have "b \<in> set xs" by simp
    with True show ?thesis using precedes_snoc [OF d, of b a] by simp
  next
    case False
    with Cons.prems have "precedes b a (rev xs)" using Cons.IH by simp
    then show ?thesis using precedes_snoc [OF d, of b a] by simp
  qed
qed

lemma precedes_trans:
  "distinct xs \<Longrightarrow> precedes a b xs \<Longrightarrow> precedes b c xs \<Longrightarrow> precedes a c xs"
proof (induction xs)
  case Nil
  then show ?case by simp
next
  case (Cons x xs)
  show ?case
  proof (cases "x = a")
    case True
    with Cons.prems(2) have bin: "b \<in> set xs" by simp
    with Cons.prems(1) have "x \<noteq> b" by auto
    with Cons.prems(3) have "precedes b c xs" by simp
    then have "c \<in> set xs" by (simp add: precedes_in)
    with True show ?thesis by simp
  next
    case False
    with Cons.prems(2) have ab: "precedes a b xs" by simp
    then have "b \<in> set xs" by (simp add: precedes_in)
    with Cons.prems(1) have "x \<noteq> b" by auto
    with Cons.prems(3) have "precedes b c xs" by simp
    with Cons.prems(1) ab have "precedes a c xs" using Cons.IH by simp
    with False show ?thesis by simp
  qed
qed

lemma precedes_trancl:
  assumes "distinct ts" and "\<And>u v. (u, v) \<in> R \<Longrightarrow> precedes u v ts"
  shows "(u, v) \<in> R\<^sup>+ \<Longrightarrow> precedes u v ts"
proof (induction rule: trancl_induct)
  case (base y)
  then show ?case by (rule assms(2))
next
  case (step y z)
  from step.hyps(2) have "precedes y z ts" by (rule assms(2))
  with assms(1) step.IH show ?case by (rule precedes_trans)
qed

lemma last_of_order:
  assumes "distinct ts" and "r \<in> set ts"
    and "\<And>n. n \<in> set ts \<Longrightarrow> n = r \<or> precedes n r ts"
  shows "last ts = r"
proof (rule ccontr)
  assume ne: "last ts \<noteq> r"
  from assms(2) have nonempty: "ts \<noteq> []" by auto
  then have ts: "ts = butlast ts @ [last ts]" by simp
  from nonempty have "last ts \<in> set ts" by simp
  with assms(3) ne have "precedes (last ts) r ts" by blast
  then have "precedes (last ts) r (butlast ts @ [last ts])" using ts by simp
  moreover from assms(1) ts have d: "distinct (butlast ts @ [last ts])" by simp
  ultimately have "precedes (last ts) r (butlast ts) \<or> (last ts \<in> set (butlast ts) \<and> r = last ts)"
    using precedes_snoc [OF d] by simp
  then have "last ts \<in> set (butlast ts)" by (auto simp: precedes_in)
  with d show False by simp
qed

lemma import_entries_result:
  "import_entries G ns = Inr es \<Longrightarrow>
   map fst es = ns \<and> list_all (\<lambda>e. node_parsed G (fst e) = Inr (snd e)) es"
proof (induction ns arbitrary: es)
  case Nil
  then show ?case by simp
next
  case (Cons n ns)
  from Cons.prems obtain p r where p: "node_parsed G n = Inr p"
    and r: "import_entries G ns = Inr r" and es: "es = (n, p) # r"
    by (auto split: sum.splits)
  from Cons.IH [OF r] p es show ?case by simp
qed

lemma location_nonempty: "location v \<noteq> []"
  by (simp add: location_def truthy_def split: option.splits)

lemma location_Some: "u \<noteq> [] \<Longrightarrow> location (Some u) = u"
  by (simp add: location_def truthy_def)

lemma get_resource_location_nonempty:
  assumes "abspath_ok E" and "get_resource_location E name base = Some url"
  shows "url \<noteq> []"
proof -
  have j: "b \<noteq> [] \<Longrightarrow> os_path_join b name \<noteq> []" for b
    by (auto simp: os_path_join_def)
  from assms show ?thesis
    by (auto simp: get_resource_location_def abspath_ok_def truthy_def j
        split: if_splits option.splits)
qed

lemma order_edge_ends:
  assumes "nx_topological_order T ts" and "(a, b) \<in> set (edges T)"
  shows "a \<in> set (map fst (nodes T)) \<and> b \<in> set (map fst (nodes T))"
proof -
  from assms have "precedes a b ts" and s: "set ts = set (map fst (nodes T))"
    by (auto simp: nx_topological_order_def list_all_iff)
  then show ?thesis using precedes_in [of a b ts] by simp
qed

lemma tree_of_first_add:
  "imports_tree (ImportsGraph_add ImportsGraph_init r p None)
     = \<lparr>nodes = [(r, Some p)], edges = []\<rparr>"
  by (simp add: ImportsGraph_add_def ImportsGraph_init_def empty_digraph_def has_node_def
      add_node_def truthy_def)

lemma tree_inv_first: "tree_inv r \<lparr>nodes = [(r, Some p)], edges = []\<rparr>"
  by (simp add: tree_inv_def nx_topological_order_def reaches_root_def)

lemma tree_of_add:
  assumes "tree_inv r (imports_tree g)" and "\<not> has_node (imports_tree g) u"
    and "has_node (imports_tree g) v" and "v \<noteq> []"
  shows "imports_tree (ImportsGraph_add g u p (Some v))
     = (imports_tree g)\<lparr>nodes := nodes (imports_tree g) @ [(u, Some p)],
                        edges := edges (imports_tree g) @ [(u, v)]\<rparr>"
proof -
  from assms(1) have "nx_topological_order (imports_tree g) (rev (map fst (nodes (imports_tree g))))"
    by (simp add: tree_inv_def)
  from order_edge_ends [OF this, of u v] assms(2)
  have "(u, v) \<notin> set (edges (imports_tree g))"
    by (auto simp: has_node_def)
  with assms(2,3,4) show ?thesis
    by (simp add: ImportsGraph_add_def add_node_def add_edge_def ensure_node_def has_node_def
        truthy_def Let_def)
qed

lemma tree_inv_add:
  assumes "tree_inv r T" and "u \<notin> set (map fst (nodes T))" and "v \<in> set (map fst (nodes T))"
  shows "tree_inv r (T\<lparr>nodes := nodes T @ [(u, Some p)], edges := edges T @ [(u, v)]\<rparr>)"
proof -
  let ?T = "T\<lparr>nodes := nodes T @ [(u, Some p)], edges := edges T @ [(u, v)]\<rparr>"
  from assms(1) have d: "distinct (map fst (nodes T))" and r: "r \<in> set (map fst (nodes T))"
    and o: "nx_topological_order T (rev (map fst (nodes T)))"
    and rr: "reaches_root r T" and pa: "list_all (\<lambda>na. snd na \<noteq> None) (nodes T)"
    by (simp_all add: tree_inv_def)
  have old: "u \<noteq> fst e \<and> precedes (fst e) (snd e) (rev (map fst (nodes T)))"
    if "e \<in> set (edges T)" for e
  proof -
    from that o have p: "precedes (fst e) (snd e) (rev (map fst (nodes T)))"
      by (simp add: nx_topological_order_def list_all_iff)
    then have "fst e \<in> set (map fst (nodes T))" using precedes_in [OF p] by simp
    with assms(2) have "u \<noteq> fst e" by auto
    with p show ?thesis by simp
  qed
  have o': "nx_topological_order ?T (rev (map fst (nodes ?T)))"
    using d assms(2,3) old by (auto simp: nx_topological_order_def list_all_iff)
  have sub: "(set (edges T))\<^sup>+ \<subseteq> (set (edges ?T))\<^sup>+"
    by (rule trancl_mono_subset) auto
  have uv: "(u, v) \<in> (set (edges ?T))\<^sup>+" by auto
  have vr: "v = r \<or> (v, r) \<in> (set (edges ?T))\<^sup>+"
    using rr assms(3) sub by (auto simp: reaches_root_def)
  then have ur: "(u, r) \<in> (set (edges ?T))\<^sup>+"
    using uv by (auto intro: trancl_trans)
  have rr': "reaches_root r ?T"
    unfolding reaches_root_def
  proof
    fix n assume "n \<in> set (map fst (nodes ?T))"
    then have "n = u \<or> n \<in> set (map fst (nodes T))" by auto
    then show "n = r \<or> (n, r) \<in> (set (edges ?T))\<^sup>+"
    proof
      assume "n = u" with ur show ?thesis by simp
    next
      assume "n \<in> set (map fst (nodes T))"
      with rr have "n = r \<or> (n, r) \<in> (set (edges T))\<^sup>+" by (auto simp: reaches_root_def)
      with sub show ?thesis by auto
    qed
  qed
  from d r assms(2) pa o' rr' show ?thesis
    by (simp add: tree_inv_def)
qed

lemma walk_post_refl: "walk_ok r st \<Longrightarrow> walk_post r st st out"
  by (simp add: walk_ok_def walk_post_def)

lemma walk_post_Done: "walk_post r st st' Done \<Longrightarrow> walk_ok r st'"
  by (simp add: walk_ok_def walk_post_def)

lemma walk_post_trans:
  "walk_post r st st1 o1 \<Longrightarrow> walk_post r st1 st2 o2 \<Longrightarrow> walk_post r st st2 o2"
  by (auto simp: walk_post_def)

lemma walk_post_has_node:
  "walk_post r st st' out \<Longrightarrow> has_node (imports_tree (graph st)) x \<Longrightarrow>
   has_node (imports_tree (graph st')) x"
  by (auto simp: walk_post_def has_node_def)

lemma walk_dep:
  assumes "walk_ok r st"
  shows "walk_ok r (st\<lparr>graph := add_graph_dependency (graph st) u v\<rparr>)"
    and "imports_tree (graph (st\<lparr>graph := add_graph_dependency (graph st) u v\<rparr>))
           = imports_tree (graph st)"
  using assms by (simp_all add: walk_ok_def add_graph_dependency_def)

lemma walk_fetch:
  assumes "walk_ok r st" and "\<not> has_node (imports_tree (graph st)) u"
  shows "walk_post r st (st\<lparr>fetched := fetched st @ [u]\<rparr>) (Raised e)"
  using assms by (auto simp: walk_ok_def walk_post_def has_node_def)

lemma walk_add:
  fixes p :: holder
  assumes "walk_ok r st" and "\<not> has_node (imports_tree (graph st)) u"
    and "has_node (imports_tree (graph st)) v" and "v \<noteq> []"
  defines "st2 \<equiv> st\<lparr>fetched := fetched st @ [u],
                      graph := ImportsGraph_add (graph st) u p (Some v)\<rparr>"
  shows "walk_ok r st2" and "walk_post r st st2 out" and "has_node (imports_tree (graph st2)) u"
proof -
  from assms(1) have t: "tree_inv r (imports_tree (graph st))"
    and d: "distinct (fetched st)"
    and s: "set (fetched st) \<subseteq> set (map fst (nodes (imports_tree (graph st))))"
    by (simp_all add: walk_ok_def)
  have tree: "imports_tree (graph st2)
      = (imports_tree (graph st))\<lparr>nodes := nodes (imports_tree (graph st)) @ [(u, Some p)],
                                  edges := edges (imports_tree (graph st)) @ [(u, v)]\<rparr>"
    unfolding st2_def using tree_of_add [OF t assms(2,3,4)] by simp
  from assms(2,3) have un: "u \<notin> set (map fst (nodes (imports_tree (graph st))))"
    and vn: "v \<in> set (map fst (nodes (imports_tree (graph st))))"
    by (simp_all add: has_node_def)
  from tree_inv_add [OF t un vn, of p] tree have t2: "tree_inv r (imports_tree (graph st2))"
    by simp
  have f: "fetched st2 = fetched st @ [u]" by (simp add: st2_def)
  have k: "map fst (nodes (imports_tree (graph st2)))
      = map fst (nodes (imports_tree (graph st))) @ [u]"
    by (simp add: tree)
  from d s un have d2: "distinct (fetched st2)" unfolding f by auto
  from s have s2: "set (fetched st2) \<subseteq> set (map fst (nodes (imports_tree (graph st2))))"
    unfolding f k by auto
  from t2 d2 s2 show "walk_ok r st2" by (simp add: walk_ok_def)
  from t2 d2 s2 k show "walk_post r st st2 out" by (auto simp: walk_post_def)
  from k show "has_node (imports_tree (graph st2)) u" by (simp add: has_node_def)
qed

lemma walk_invariant:
  "abspath_ok E \<Longrightarrow> walk_ok r st \<Longrightarrow>
   has_node (imports_tree (graph st)) (location current_import) \<Longrightarrow>
   walk_post r st
     (fst (build_ordered_imports_recursive fuel E base current_holder current_import st))
     (snd (build_ordered_imports_recursive fuel E base current_holder current_import st))"
  and
  "abspath_ok E \<Longrightarrow> walk_ok r st \<Longrightarrow>
   has_node (imports_tree (graph st)) (location current_import) \<Longrightarrow>
   walk_post r st
     (fst (import_loop fuel E base items current_import st))
     (snd (import_loop fuel E base items current_import st))"
proof (induction fuel E base current_holder current_import st
    and fuel E base items current_import st
    rule: build_ordered_imports_recursive_import_loop.induct)
  case (1 fuel E base current_holder current_import st)
  show ?case
  proof (cases "get_item current_holder IMPORTS")
    case (Inl e)
    then show ?thesis using "1.prems"(2) by (simp add: walk_post_refl)
  next
    case (Inr b)
    note item = this
    show ?thesis
    proof (cases b)
      case None
      with item show ?thesis using "1.prems"(2) by (simp add: walk_post_refl)
    next
      case (Some x2)
      note some = this
      show ?thesis
      proof (cases "iterate_restored (snd x2)")
        case (Inl e)
        with item some show ?thesis using "1.prems"(2) by (simp add: walk_post_refl)
      next
        case (Inr ba)
        from "1.IH" [OF item some Inr "1.prems"] item some Inr
        show ?thesis by simp
      qed
    qed
  qed
next
  case (2 fuel E base current_import st)
  then show ?case by (simp add: walk_post_refl)
next
  case (3 fuel E base another_import rest current_import st)
  note ok = "3.prems"(2) and hn = "3.prems"(3) and env = "3.prems"(1)
  show ?case
  proof (cases another_import)
    case (Leaf name)
    note leaf = this
    show ?thesis
    proof (cases "get_resource_location E name base")
      case None
      with leaf show ?thesis using ok by (simp add: walk_post_refl)
    next
      case (Some url)
      note loc = this
      from get_resource_location_nonempty [OF env loc] have une: "url \<noteq> []" .
      show ?thesis
      proof (cases "ImportsGraph_contains (graph st) url")
        case True
        let ?sd = "st\<lparr>graph := add_graph_dependency (graph st) url (Some (location current_import))\<rparr>"
        have okd: "walk_ok r ?sd" by (rule walk_dep(1) [OF ok])
        have same: "imports_tree (graph ?sd) = imports_tree (graph st)"
          by (rule walk_dep(2) [OF ok])
        from hn same have hnd: "has_node (imports_tree (graph ?sd)) (location current_import)"
          by simp
        have eq: "import_loop fuel E base (another_import # rest) current_import st
            = import_loop fuel E base rest current_import ?sd"
          using leaf loc True by simp
        from okd same have step: "walk_post r st ?sd Done"
          by (simp add: walk_post_def walk_ok_def)
        from "3.IH"(1) [OF leaf loc True env okd hnd]
        have "walk_post r ?sd (fst (import_loop fuel E base rest current_import ?sd))
                (snd (import_loop fuel E base rest current_import ?sd))" .
        with step show ?thesis unfolding eq by (rule walk_post_trans)
      next
        case False
        note new = this
        then have nh: "\<not> has_node (imports_tree (graph st)) url"
          by (simp add: ImportsGraph_contains_def)
        let ?s1 = "st\<lparr>fetched := fetched st @ [url]\<rparr>"
        show ?thesis
        proof (cases "fetch_import E url")
          case (Inl e)
          with leaf loc new have "import_loop fuel E base (another_import # rest) current_import st
              = (?s1, Raised e)"
            by (simp add: Let_def)
          then show ?thesis using walk_fetch [OF ok nh, of e] by simp
        next
          case (Inr raw)
          note fetch = this
          show ?thesis
          proof (cases "yaml_load E raw name url")
            case (Inl e)
            with leaf loc new fetch
            have "import_loop fuel E base (another_import # rest) current_import st
                = (?s1, Raised e)"
              by (simp add: Let_def)
            then show ?thesis using walk_fetch [OF ok nh, of e] by simp
          next
            case (Inr imported)
            note load = this
            let ?s2 = "?s1\<lparr>graph := ImportsGraph_add (graph ?s1) url imported
                                       (Some (location current_import))\<rparr>"
            have s2: "?s2 = st\<lparr>fetched := fetched st @ [url],
                               graph := ImportsGraph_add (graph st) url imported
                                          (Some (location current_import))\<rparr>"
              by simp
            have ok2: "walk_ok r ?s2" and post2: "\<And>out. walk_post r st ?s2 out"
              and hn2: "has_node (imports_tree (graph ?s2)) url"
              unfolding s2 using walk_add [OF ok nh hn location_nonempty] by blast+
            show ?thesis
            proof (cases fuel)
              case 0
              with leaf loc new fetch load
              have "import_loop fuel E base (another_import # rest) current_import st
                  = (?s2, OutOfFuel)"
                by (simp add: Let_def)
              then show ?thesis using post2 [of OutOfFuel] by simp
            next
              case (Suc f)
              note fuel = this
              obtain st3 out3 where
                rec: "build_ordered_imports_recursive f E base imported (Some url) ?s2 = (st3, out3)"
                by fastforce
              from hn2 une have hn2': "has_node (imports_tree (graph ?s2)) (location (Some url))"
                by (simp add: location_Some)
              from "3.IH"(2) [OF leaf loc new refl fetch load refl fuel env ok2 hn2'] rec
              have post3: "walk_post r ?s2 st3 out3"
                by (simp del: build_ordered_imports_recursive.simps)
              from post2 post3 have post13: "walk_post r st st3 out3"
                by (rule walk_post_trans)
              show ?thesis
              proof (cases "out3 = Done")
                case True
                with rec have rec': "(st3, Done) =
                    build_ordered_imports_recursive f E base imported (Some url) ?s2"
                  by simp
                from post13 True have ok3: "walk_ok r st3" by (simp add: walk_post_Done)
                from walk_post_has_node [OF post13 hn]
                have hn3: "has_node (imports_tree (graph st3)) (location current_import)" .
                from "3.IH"(3) [OF leaf loc new refl fetch load refl fuel rec' refl env ok3 hn3]
                have "walk_post r st3 (fst (import_loop fuel E base rest current_import st3))
                        (snd (import_loop fuel E base rest current_import st3))" .
                with post13 have "walk_post r st (fst (import_loop fuel E base rest current_import st3))
                        (snd (import_loop fuel E base rest current_import st3))"
                  by (rule walk_post_trans)
                moreover have "import_loop fuel E base (another_import # rest) current_import st
                    = import_loop fuel E base rest current_import st3"
                  using leaf loc new fetch load fuel rec True
                  by (simp add: Let_def del: build_ordered_imports_recursive.simps)
                ultimately show ?thesis by simp
              next
                case False
                with leaf loc new fetch load fuel rec
                have "import_loop fuel E base (another_import # rest) current_import st
                    = (st3, out3)"
                  by (cases out3) (simp_all add: Let_def del: build_ordered_imports_recursive.simps)
                then show ?thesis using post13 by simp
              qed
            qed
          qed
        qed
      qed
    qed
  qed (use ok in \<open>simp_all add: walk_post_refl\<close>)
qed

lemma build_imports_graph_post:
  assumes "abspath_ok E"
  shows "tree_inv (location dsl_location)
           (imports_tree (graph (fst (build_imports_graph fuel E parsed_dsl dsl_location base))))"
    and "distinct (fetched (fst (build_imports_graph fuel E parsed_dsl dsl_location base)))"
proof -
  let ?r = "location dsl_location"
  let ?st0 = "\<lparr>graph = ImportsGraph_add ImportsGraph_init ?r parsed_dsl None, fetched = []\<rparr>"
  have t0: "tree_inv ?r (imports_tree (graph ?st0))"
    by (simp add: tree_of_first_add tree_inv_first)
  then have ok0: "walk_ok ?r ?st0" by (simp add: walk_ok_def)
  have hn0: "has_node (imports_tree (graph ?st0)) (location dsl_location)"
    by (simp add: tree_of_first_add has_node_def)
  from walk_invariant(1) [OF assms ok0 hn0, of fuel base parsed_dsl]
  have "walk_post ?r ?st0 (fst (build_imports_graph fuel E parsed_dsl dsl_location base))
          (snd (build_imports_graph fuel E parsed_dsl dsl_location base))"
    by (simp add: build_imports_graph_def del: build_ordered_imports_recursive.simps)
  then show "tree_inv (location dsl_location)
           (imports_tree (graph (fst (build_imports_graph fuel E parsed_dsl dsl_location base))))"
    and "distinct (fetched (fst (build_imports_graph fuel E parsed_dsl dsl_location base)))"
    by (simp_all add: walk_post_def)
qed

lemma import_entries_total:
  assumes "list_all (\<lambda>na. snd na \<noteq> None) (nodes G)" and "set ns \<subseteq> set (map fst (nodes G))"
  shows "\<exists>es. import_entries G ns = Inr es"
  using assms(2)
proof (induction ns)
  case Nil
  then show ?case by simp
next
  case (Cons n ns)
  then obtain es where es: "import_entries G ns = Inr es" by auto
  from Cons.prems have "n \<in> set (map fst (nodes G))" by simp
  then obtain a where "map_of (nodes G) n = Some a"
    by (metis map_of_eq_None_iff not_Some_eq set_map)
  moreover from this have "(n, a) \<in> set (nodes G)" by (rule map_of_SomeD)
  with assms(1) have "a \<noteq> None" by (auto simp: list_all_iff)
  ultimately obtain p where "node_parsed G n = Inr p"
    by (auto simp: node_parsed_def)
  with es show ?case by simp
qed

lemma sorted_entries:
  assumes "nx_topological_sort E (imports_tree g) = Inr ts"
    and "nx_topological_order (imports_tree g) ts"
    and "ImportsGraph_topological_sort E g = Inr entries"
  shows "map fst entries = rev ts" and "distinct (map fst entries)"
    and "set (map fst entries) = set (map fst (nodes (imports_tree g)))"
    and "list_all (\<lambda>e. node_parsed (imports_tree g) (fst e) = Inr (snd e)) entries"
proof -
  from assms(1,3) have "import_entries (imports_tree g) (rev ts) = Inr entries"
    by (simp add: ImportsGraph_topological_sort_def)
  from import_entries_result [OF this]
  show k: "map fst entries = rev ts"
    and "list_all (\<lambda>e. node_parsed (imports_tree g) (fst e) = Inr (snd e)) entries"
    by simp_all
  from assms(2) show "distinct (map fst entries)"
    and "set (map fst entries) = set (map fst (nodes (imports_tree g)))"
    unfolding k by (simp_all add: nx_topological_order_def)
qed

lemma order_trancl:
  assumes "nx_topological_order T ts" and "(u, v) \<in> (set (edges T))\<^sup>+"
  shows "precedes u v ts"
proof -
  from assms(1) have d: "distinct ts"
    and e: "\<And>a b. (a, b) \<in> set (edges T) \<Longrightarrow> precedes a b ts"
    by (auto simp: nx_topological_order_def list_all_iff)
  from precedes_trancl [OF d e assms(2)] show ?thesis by simp
qed

lemma order_root_last:
  assumes "nx_topological_order T ts" and "reaches_root r T" and "r \<in> set (map fst (nodes T))"
  shows "hd (rev ts) = r"
proof -
  from assms(1) have d: "distinct ts" and s: "set ts = set (map fst (nodes T))"
    by (simp_all add: nx_topological_order_def)
  have "n = r \<or> precedes n r ts" if "n \<in> set ts" for n
  proof -
    from that s assms(2) have "n = r \<or> (n, r) \<in> (set (edges T))\<^sup>+"
      by (auto simp: reaches_root_def)
    then show ?thesis using order_trancl [OF assms(1)] by blast
  qed
  with d assms(3) s have "last ts = r" by (intro last_of_order) auto
  moreover from assms(3) s have "ts \<noteq> []" by auto
  ultimately show ?thesis by (simp add: hd_rev)
qed

lemma has_node_map_of: "has_node G n \<Longrightarrow> \<exists>a. map_of (nodes G) n = Some a"
  unfolding has_node_def by (metis map_of_eq_None_iff not_Some_eq set_map)

lemma not_has_node_map_of: "\<not> has_node G n \<Longrightarrow> map_of (nodes G) n = None"
  unfolding has_node_def by (simp add: map_of_eq_None_iff)

lemma node_parsed_ensure_node:
  "has_node G k \<Longrightarrow> node_parsed (ensure_node G n) k = node_parsed G k"
  by (auto simp: ensure_node_def node_parsed_def map_add_def dest!: has_node_map_of)

lemma has_node_ensure_node: "has_node (ensure_node G n) k = (has_node G k \<or> k = n)"
  by (auto simp: ensure_node_def has_node_def)

lemma nodes_add_edge: "nodes (add_edge G u v) = nodes (ensure_node (ensure_node G u) v)"
  by (simp add: add_edge_def Let_def)

lemma node_parsed_add_edge:
  "has_node G k \<Longrightarrow> node_parsed (add_edge G u v) k = node_parsed G k"
  by (simp add: node_parsed_def nodes_add_edge
      node_parsed_ensure_node [unfolded node_parsed_def] has_node_ensure_node)

lemma has_node_add_edge: "has_node (add_edge G u v) k = (has_node G k \<or> k = u \<or> k = v)"
proof -
  have "has_node (add_edge G u v) k = has_node (ensure_node (ensure_node G u) v) k"
    by (simp add: has_node_def nodes_add_edge)
  then show ?thesis by (auto simp: has_node_ensure_node)
qed

lemma keys_set_parsed:
  "map fst (map (\<lambda>na. if fst na = n then (n, Some p) else na) xs) = map fst xs"
  by (induction xs) auto

lemma has_node_add_node: "has_node (add_node G n p) k = (has_node G k \<or> k = n)"
proof (cases "has_node G n")
  case True
  then have "map fst (nodes (add_node G n p)) = map fst (nodes G)"
    by (simp add: add_node_def keys_set_parsed del: map_map)
  then have "has_node (add_node G n p) k = has_node G k"
    unfolding has_node_def by (rule arg_cong)
  with True show ?thesis by auto
next
  case False
  then show ?thesis by (auto simp: add_node_def has_node_def)
qed

lemma node_parsed_add_node_new:
  "\<not> has_node G n \<Longrightarrow> node_parsed (add_node G n p) k
     = (if k = n then Inr p else node_parsed G k)"
  by (auto simp: add_node_def node_parsed_def map_add_def not_has_node_map_of
      split: option.splits)

lemma has_node_add:
  "has_node (imports_tree (ImportsGraph_add g key parsed via)) k
     = (has_node (imports_tree g) k \<or> k = key \<or> (truthy via \<and> k = the via))"
  by (auto simp: ImportsGraph_add_def Let_def has_node_add_edge has_node_add_node)

lemma node_parsed_add_first:
  assumes "\<not> has_node (imports_tree g) key"
  shows "node_parsed (imports_tree (ImportsGraph_add g key parsed via)) key = Inr parsed"
  using assms
  by (simp add: ImportsGraph_add_def Let_def node_parsed_add_edge has_node_add_node
      node_parsed_add_node_new)

lemma node_parsed_add_kept:
  assumes "has_node (imports_tree g) k"
  shows "node_parsed (imports_tree (ImportsGraph_add g key parsed via)) k
     = node_parsed (imports_tree g) k"
proof (cases "has_node (imports_tree g) key")
  case True
  with assms show ?thesis
    by (simp add: ImportsGraph_add_def Let_def node_parsed_add_edge)
next
  case False
  with assms have "k \<noteq> key" by auto
  with assms False show ?thesis
    by (simp add: ImportsGraph_add_def Let_def node_parsed_add_edge has_node_add_node
        node_parsed_add_node_new)
qed

lemma keeps_registered_refl: "keeps_registered st st"
  by (simp add: keeps_registered_def)

lemma keeps_registered_trans:
  "keeps_registered st st1 \<Longrightarrow> keeps_registered st1 st2 \<Longrightarrow> keeps_registered st st2"
  by (simp add: keeps_registered_def)

lemma keeps_registered_dep:
  "keeps_registered st (st\<lparr>graph := add_graph_dependency (graph st) u v\<rparr>)"
  by (simp add: keeps_registered_def add_graph_dependency_def)

lemma keeps_registered_fetched:
  "keeps_registered st (st\<lparr>fetched := f\<rparr>)"
  by (simp add: keeps_registered_def)

lemma keeps_registered_add:
  "keeps_registered st (st\<lparr>fetched := f, graph := ImportsGraph_add (graph st) u p v\<rparr>)"
  by (simp add: keeps_registered_def node_parsed_add_kept has_node_add)

lemma walk_keeps:
  "keeps_registered st
     (fst (build_ordered_imports_recursive fuel E base current_holder current_import st))"
  and walk_keeps_loop:
  "keeps_registered st (fst (import_loop fuel E base items current_import st))"
proof (induction fuel E base current_holder current_import st
    and fuel E base items current_import st
    rule: build_ordered_imports_recursive_import_loop.induct)
  case (1 fuel E base current_holder current_import st)
  show ?case
  proof (cases "get_item current_holder IMPORTS")
    case (Inl e)
    then show ?thesis by (simp add: keeps_registered_refl)
  next
    case (Inr b)
    note item = this
    show ?thesis
    proof (cases b)
      case None
      with item show ?thesis by (simp add: keeps_registered_refl)
    next
      case (Some x2)
      note some = this
      show ?thesis
      proof (cases "iterate_restored (snd x2)")
        case (Inl e)
        with item some show ?thesis by (simp add: keeps_registered_refl)
      next
        case (Inr ba)
        from "1.IH" [OF item some Inr] item some Inr
        show ?thesis by simp
      qed
    qed
  qed
next
  case (2 fuel E base current_import st)
  then show ?case by (simp add: keeps_registered_refl)
next
  case (3 fuel E base another_import rest current_import st)
  show ?case
  proof (cases another_import)
    case (Leaf name)
    note leaf = this
    show ?thesis
    proof (cases "get_resource_location E name base")
      case None
      with leaf show ?thesis by (simp add: keeps_registered_refl)
    next
      case (Some url)
      note loc = this
      show ?thesis
      proof (cases "ImportsGraph_contains (graph st) url")
        case True
        let ?sd = "st\<lparr>graph := add_graph_dependency (graph st) url (Some (location current_import))\<rparr>"
        have eq: "import_loop fuel E base (another_import # rest) current_import st
            = import_loop fuel E base rest current_import ?sd"
          using leaf loc True by simp
        have step: "keeps_registered st ?sd" by (rule keeps_registered_dep)
        from "3.IH"(1) [OF leaf loc True]
        have "keeps_registered ?sd (fst (import_loop fuel E base rest current_import ?sd))" .
        with step show ?thesis unfolding eq by (rule keeps_registered_trans)
      next
        case False
        note new = this
        let ?s1 = "st\<lparr>fetched := fetched st @ [url]\<rparr>"
        have k1: "keeps_registered st ?s1" by (rule keeps_registered_fetched)
        show ?thesis
        proof (cases "fetch_import E url")
          case (Inl e)
          with leaf loc new have "import_loop fuel E base (another_import # rest) current_import st
              = (?s1, Raised e)"
            by (simp add: Let_def)
          then show ?thesis using k1 by simp
        next
          case (Inr raw)
          note fetch = this
          show ?thesis
          proof (cases "yaml_load E raw name url")
            case (Inl e)
            with leaf loc new fetch
            have "import_loop fuel E base (another_import # rest) current_import st
                = (?s1, Raised e)"
              by (simp add: Let_def)
            then show ?thesis using k1 by simp
          next
            case (Inr imported)
            note load = this
            let ?s2 = "?s1\<lparr>graph := ImportsGraph_add (graph ?s1) url imported
                                       (Some (location current_import))\<rparr>"
            have s2: "?s2 = st\<lparr>fetched := fetched st @ [url],
                               graph := ImportsGraph_add (graph st) url imported
                                          (Some (location current_import))\<rparr>"
              by simp
            have k2: "keeps_registered st ?s2"
              unfolding s2 by (rule keeps_registered_add)
            show ?thesis
            proof (cases fuel)
              case 0
              with leaf loc new fetch load
              have "import_loop fuel E base (another_import # rest) current_import st
                  = (?s2, OutOfFuel)"
                by (simp add: Let_def)
              then show ?thesis using k2 by simp
            next
              case (Suc f)
              note fuel = this
              obtain st3 out3 where
                rec: "build_ordered_imports_recursive f E base imported (Some url) ?s2 = (st3, out3)"
                by fastforce
              from "3.IH"(2) [OF leaf loc new refl fetch load refl fuel] rec
              have "keeps_registered ?s2 st3"
                by (simp del: build_ordered_imports_recursive.simps)
              with k2 have k3: "keeps_registered st st3"
                by (rule keeps_registered_trans)
              show ?thesis
              proof (cases "out3 = Done")
                case True
                with rec have rec': "(st3, Done) =
                    build_ordered_imports_recursive f E base imported (Some url) ?s2"
                  by simp
                from "3.IH"(3) [OF leaf loc new refl fetch load refl fuel rec' refl]
                have "keeps_registered st3 (fst (import_loop fuel E base rest current_import st3))" .
                with k3 have "keeps_registered st (fst (import_loop fuel E base rest current_import st3))"
                  by (rule keeps_registered_trans)
                moreover have "import_loop fuel E base (another_import # rest) current_import st
                    = import_loop fuel E base rest current_import st3"
                  using leaf loc new fetch load fuel rec True
                  by (simp add: Let_def del: build_ordered_imports_recursive.simps)
                ultimately show ?thesis by simp
              next
                case False
                with leaf loc new fetch load fuel rec
                have "import_loop fuel E base (another_import # rest) current_import st
                    = (st3, out3)"
                  by (cases out3) (simp_all add: Let_def del: build_ordered_imports_recursive.simps)
                then show ?thesis using k3 by simp
              qed
            qed
          qed
        qed
      qed
    qed
  qed (simp_all add: keeps_registered_refl)
qed

lemma root_registered:
  "node_parsed (imports_tree (graph (fst (build_imports_graph fuel E parsed_dsl dsl_location base))))
     (location dsl_location) = Inr parsed_dsl"
proof -
  let ?st0 = "\<lparr>graph = ImportsGraph_add ImportsGraph_init (location dsl_location) parsed_dsl None,
               fetched = []\<rparr>"
  have n: "\<not> has_node (imports_tree ImportsGraph_init) (location dsl_location)"
    by (simp add: ImportsGraph_init_def empty_digraph_def has_node_def)
  have hn: "has_node (imports_tree (graph ?st0)) (location dsl_location)"
    by (simp add: has_node_add)
  have "node_parsed (imports_tree (graph ?st0)) (location dsl_location) = Inr parsed_dsl"
    using node_parsed_add_first [OF n] by simp
  moreover from walk_keeps [of ?st0 fuel E base parsed_dsl dsl_location]
  have "keeps_registered ?st0 (fst (build_imports_graph fuel E parsed_dsl dsl_location base))"
    by (simp add: build_imports_graph_def del: build_ordered_imports_recursive.simps)
  ultimately show ?thesis using hn unfolding keeps_registered_def by metis
qed

lemma unregistered_mono:
  assumes "keeps_registered st st'"
  shows "unregistered us st' \<le> unregistered us st"
proof -
  from assms have "set (map fst (nodes (imports_tree (graph st))))
      \<subseteq> set (map fst (nodes (imports_tree (graph st'))))"
    unfolding keeps_registered_def has_node_def by blast
  then have "set us - set (map fst (nodes (imports_tree (graph st'))))
      \<subseteq> set us - set (map fst (nodes (imports_tree (graph st))))"
    by blast
  then show ?thesis unfolding unregistered_def by (intro card_mono) simp_all
qed

lemma unregistered_add:
  assumes "u \<in> set us" and "\<not> has_node (imports_tree (graph st)) u"
    and "keeps_registered st st2" and "has_node (imports_tree (graph st2)) u"
  shows "unregistered us st2 < unregistered us st"
proof -
  from assms(3) have "set (map fst (nodes (imports_tree (graph st))))
      \<subseteq> set (map fst (nodes (imports_tree (graph st2))))"
    unfolding keeps_registered_def has_node_def by blast
  with assms(1,2,4)
  have "set us - set (map fst (nodes (imports_tree (graph st2))))
      \<subset> set us - set (map fst (nodes (imports_tree (graph st))))"
    unfolding has_node_def by blast
  then show ?thesis unfolding unregistered_def by (intro psubset_card_mono) simp_all
qed

lemma closed_config_loads:
  assumes "closed_config E base us" and "u \<in> set us"
  shows "\<exists>raw d. fetch_import E u = Inr raw \<and> yaml_load E raw name u = Inr d
           \<and> well_formed E base us d"
proof -
  from assms have c: "case fetch_import E u of
           Inl e \<Rightarrow> False
         | Inr raw \<Rightarrow> (case yaml_load E raw name u of
                         Inl e \<Rightarrow> False
                       | Inr d \<Rightarrow> well_formed E base us d)"
    unfolding closed_config_def by blast
  then obtain raw where r: "fetch_import E u = Inr raw"
    by (cases "fetch_import E u") simp_all
  with c obtain d where "yaml_load E raw name u = Inr d" and "well_formed E base us d"
    by (cases "yaml_load E raw name u") simp_all
  with r show ?thesis by blast
qed

lemma walk_done:
  "closed_config E base us \<Longrightarrow> well_formed E base us current_holder \<Longrightarrow>
   unregistered us st \<le> fuel \<Longrightarrow>
   snd (build_ordered_imports_recursive fuel E base current_holder current_import st) = Done"
  and walk_done_loop:
  "closed_config E base us \<Longrightarrow> list_all (resolves_into E base us) items \<Longrightarrow>
   unregistered us st \<le> fuel \<Longrightarrow>
   snd (import_loop fuel E base items current_import st) = Done"
proof (induction fuel E base current_holder current_import st
    and fuel E base items current_import st
    rule: build_ordered_imports_recursive_import_loop.induct)
  case (1 fuel E base current_holder current_import st)
  note wf = "1.prems"(2)
  show ?case
  proof (cases "get_item current_holder IMPORTS")
    case (Inl e)
    with wf show ?thesis by (simp add: well_formed_def)
  next
    case (Inr b)
    note item = this
    show ?thesis
    proof (cases b)
      case None
      with item show ?thesis by simp
    next
      case (Some x2)
      note some = this
      show ?thesis
      proof (cases "iterate_restored (snd x2)")
        case (Inl e)
        with item some wf show ?thesis by (simp add: well_formed_def)
      next
        case (Inr ba)
        with item some wf have "list_all (resolves_into E base us) ba"
          by (simp add: well_formed_def)
        from "1.IH" [OF item some Inr "1.prems"(1) this "1.prems"(3)] item some Inr
        show ?thesis by simp
      qed
    qed
  qed
next
  case (2 fuel E base current_import st)
  then show ?case by simp
next
  case (3 fuel E base another_import rest current_import st)
  note cc = "3.prems"(1) and fl = "3.prems"(3)
  from "3.prems"(2) have ri: "resolves_into E base us another_import"
    and rs: "list_all (resolves_into E base us) rest"
    by simp_all
  from ri obtain name where leaf: "another_import = Leaf name"
    by (cases another_import) (simp_all add: resolves_into_def)
  from ri leaf obtain url where loc: "get_resource_location E name base = Some url"
    and uin: "url \<in> set us"
    by (cases "get_resource_location E name base") (simp_all add: resolves_into_def)
  show ?case
  proof (cases "ImportsGraph_contains (graph st) url")
    case True
    let ?sd = "st\<lparr>graph := add_graph_dependency (graph st) url (Some (location current_import))\<rparr>"
    have eq: "import_loop fuel E base (another_import # rest) current_import st
        = import_loop fuel E base rest current_import ?sd"
      using leaf loc True by simp
    have "unregistered us ?sd = unregistered us st"
      by (simp add: unregistered_def add_graph_dependency_def)
    with fl have fd: "unregistered us ?sd \<le> fuel" by simp
    from "3.IH"(1) [OF leaf loc True cc rs fd]
    show ?thesis unfolding eq .
  next
    case False
    note new = this
    then have nh: "\<not> has_node (imports_tree (graph st)) url"
      by (simp add: ImportsGraph_contains_def)
    from closed_config_loads [OF cc uin, of name] obtain raw imported
      where fetch: "fetch_import E url = Inr raw"
        and load: "yaml_load E raw name url = Inr imported"
        and wfi: "well_formed E base us imported"
      by blast
    let ?s1 = "st\<lparr>fetched := fetched st @ [url]\<rparr>"
    let ?s2 = "?s1\<lparr>graph := ImportsGraph_add (graph ?s1) url imported
                               (Some (location current_import))\<rparr>"
    have s2: "?s2 = st\<lparr>fetched := fetched st @ [url],
                       graph := ImportsGraph_add (graph st) url imported
                                  (Some (location current_import))\<rparr>"
      by simp
    have k2: "keeps_registered st ?s2"
      unfolding s2 by (rule keeps_registered_add)
    have hn2: "has_node (imports_tree (graph ?s2)) url"
      by (simp add: has_node_add)
    from unregistered_add [OF uin nh k2 hn2]
    have less: "unregistered us ?s2 < unregistered us st" .
    show ?thesis
    proof (cases fuel)
      case 0
      with less fl show ?thesis by simp
    next
      case (Suc f)
      note fuel = this
      from less fl fuel have f2: "unregistered us ?s2 \<le> f" by simp
      obtain st3 out3 where
        rec: "build_ordered_imports_recursive f E base imported (Some url) ?s2 = (st3, out3)"
        by fastforce
      from "3.IH"(2) [OF leaf loc new refl fetch load refl fuel cc wfi f2] rec
      have done3: "out3 = Done"
        by (simp del: build_ordered_imports_recursive.simps)
      with rec have rec': "(st3, Done) =
          build_ordered_imports_recursive f E base imported (Some url) ?s2"
        by simp
      from walk_keeps [of ?s2 f E base imported "Some url"] rec
      have "keeps_registered ?s2 st3"
        by (simp del: build_ordered_imports_recursive.simps)
      from unregistered_mono [OF this, of us] less fl
      have f3: "unregistered us st3 \<le> fuel" by simp
      from "3.IH"(3) [OF leaf loc new refl fetch load refl fuel rec' refl cc rs f3]
      have "snd (import_loop fuel E base rest current_import st3) = Done" .
      moreover have "import_loop fuel E base (another_import # rest) current_import st
          = import_loop fuel E base rest current_import st3"
        using leaf loc new fetch load fuel rec done3
        by (simp add: Let_def del: build_ordered_imports_recursive.simps)
      ultimately show ?thesis by simp
    qed
  qed
qed

lemma build_imports_graph_done:
  assumes "closed_config E base us" and "well_formed E base us parsed_dsl"
    and "length us \<le> fuel"
  shows "snd (build_imports_graph fuel E parsed_dsl dsl_location base) = Done"
proof -
  let ?st0 = "\<lparr>graph = ImportsGraph_add ImportsGraph_init (location dsl_location) parsed_dsl None,
               fetched = []\<rparr>"
  have "unregistered us ?st0 \<le> card (set us)"
    unfolding unregistered_def by (intro card_mono) auto
  also have "\<dots> \<le> length us" by (rule card_length)
  finally have "unregistered us ?st0 \<le> fuel" using assms(3) by simp
  from walk_done [OF assms(1,2) this, of dsl_location]
  show ?thesis by (simp add: build_imports_graph_def del: build_ordered_imports_recursive.simps)
qed

lemma import_loop_met_again:
  assumes "get_resource_location E name base = Some u"
    and "ImportsGraph_contains (graph st) u"
  shows "import_loop fuel E base (Leaf name # rest) current_import st
       = import_loop fuel E base rest current_import
           (st\<lparr>graph := add_graph_dependency (graph st) u (Some (location current_import))\<rparr>)"
    and "imports_tree (add_graph_dependency (graph st) u (Some (location current_import)))
       = imports_tree (graph st)"
    and "(u, location current_import)
       \<in> set (edges (imports_graph
                 (add_graph_dependency (graph st) u (Some (location current_import)))))"
  using assms location_nonempty [of current_import]
  by (simp_all add: add_graph_dependency_def truthy_def add_edge_def Let_def)

lemma import_loop_first_load:
  assumes "get_resource_location E name base = Some u"
    and "\<not> ImportsGraph_contains (graph st) u"
    and "fetch_import E u = Inr raw" and "yaml_load E raw name u = Inr d"
  shows "node_parsed (imports_tree (graph (fst
           (import_loop fuel E base (Leaf name # rest) current_import st)))) u = Inr d"
proof -
  let ?s1 = "st\<lparr>fetched := fetched st @ [u]\<rparr>"
  let ?s2 = "?s1\<lparr>graph := ImportsGraph_add (graph ?s1) u d (Some (location current_import))\<rparr>"
  from assms(2) have nh: "\<not> has_node (imports_tree (graph st)) u"
    by (simp add: ImportsGraph_contains_def)
  have hn2: "has_node (imports_tree (graph ?s2)) u" by (simp add: has_node_add)
  have np2: "node_parsed (imports_tree (graph ?s2)) u = Inr d"
    using node_parsed_add_first [OF nh] by simp
  have fin: "node_parsed (imports_tree (graph s)) u = Inr d" if "keeps_registered ?s2 s" for s
    using that hn2 np2 unfolding keeps_registered_def by metis
  show ?thesis
  proof (cases fuel)
    case 0
    with assms have "import_loop fuel E base (Leaf name # rest) current_import st
        = (?s2, OutOfFuel)"
      by (simp add: Let_def)
    then show ?thesis using fin [OF keeps_registered_refl] by simp
  next
    case (Suc f)
    obtain st3 out3 where
      rec: "build_ordered_imports_recursive f E base d (Some u) ?s2 = (st3, out3)"
      by fastforce
    from walk_keeps [of ?s2 f E base d "Some u"] rec
    have k3: "keeps_registered ?s2 st3"
      by (simp del: build_ordered_imports_recursive.simps)
    show ?thesis
    proof (cases "out3 = Done")
      case True
      have "import_loop fuel E base (Leaf name # rest) current_import st
          = import_loop fuel E base rest current_import st3"
        using assms Suc rec True
        by (simp add: Let_def del: build_ordered_imports_recursive.simps)
      moreover from k3 walk_keeps_loop [of st3 fuel E base rest current_import]
      have "keeps_registered ?s2 (fst (import_loop fuel E base rest current_import st3))"
        by (rule keeps_registered_trans)
      ultimately show ?thesis using fin by simp
    next
      case False
      with assms Suc rec
      have "import_loop fuel E base (Leaf name # rest) current_import st = (st3, out3)"
        by (cases out3) (simp_all add: Let_def del: build_ordered_imports_recursive.simps)
      then show ?thesis using fin [OF k3] by simp
    qed
  qed
qed

lemma merge_ordered_append:
  "merge_ordered E validate version_raw (xs @ ys) combined
     = (case merge_ordered E validate version_raw xs combined of
          Inl e \<Rightarrow> Inl e
        | Inr combined' \<Rightarrow> merge_ordered E validate version_raw ys combined')"
proof (induction xs arbitrary: combined)
  case Nil
  show ?case by simp
next
  case (Cons a xs)
  then show ?case by (cases validate) (simp_all split: sum.splits)
qed

lemma abspath_ok_table_env: "abspath_ok (table_env docs)"
  by (simp add: abspath_ok_def table_env_def)

lemma diamond_sort:
  "nx_topological_sort (table_env diamond_docs) (imports_tree diamond_graph)
     = Inr [''file:c'', ''file:a'', ''file:b'', ''root'']"
  by code_simp

lemma diamond_order:
  "nx_topological_order (imports_tree diamond_graph) [''file:c'', ''file:a'', ''file:b'', ''root'']"
  by code_simp

lemma diamond_entries:
  "ImportsGraph_topological_sort (table_env diamond_docs) diamond_graph = Inr diamond_ordered"
  by code_simp

lemma diamond_edges:
  "edges (imports_tree diamond_graph)
     = [(''file:a'', ''root''), (''file:c'', ''file:a''), (''file:b'', ''root'')]"
  by code_simp

section \<open>Facts about data types\<close>

lemma keys_dict_setitem: "fst ` set (dict_setitem c k v) = insert k (fst ` set c)"
  by (induction c) auto

lemma map_of_dict_setitem: "map_of (dict_setitem c k v) = (map_of c)(k \<mapsto> v)"
  by (induction c) (auto simp: fun_eq_iff)

lemma keys_dict_update: "fst ` set (dict_update d other) = fst ` set d \<union> fst ` set other"
  unfolding dict_update_def
  by (induction other arbitrary: d) (auto simp: keys_dict_setitem)

lemma map_of_dict_update: "map_of (dict_update d other) = map_of d ++ map_of (rev other)"
  unfolding dict_update_def
proof (induction other arbitrary: d)
  case Nil
  show ?case by simp
next
  case (Cons kv other)
  show ?case
    by (simp add: Cons.IH map_of_dict_setitem fun_eq_iff map_add_def split: option.splits)
qed











lemma keys_SchemaProperty_parse:
  "fst ` set (SchemaProperty_parse children b init)
     = child_name ` {c \<in> set children. defined c} \<union> (if b then {''initial_default''} else {})"
  by (auto simp: SchemaProperty_parse_def Let_def keys_dict_setitem keys_dict_update image_image)

lemma map_of_SchemaProperty_parse:
  assumes "distinct (map child_name children)" and "c \<in> set children" and "defined c"
    and "child_name c \<noteq> ''initial_default''"
  shows "map_of (SchemaProperty_parse children b init) (child_name c) = Some (child_value c)"
proof -
  let ?ps = "map (\<lambda>c. (child_name c, child_value c)) (filter defined children)"
  have eq: "map fst ?ps = map child_name (filter defined children)" by (simp add: o_def)
  from assms(1) have "distinct (map child_name (filter defined children))"
    by (rule distinct_map_filter)
  then have "distinct (map fst ?ps)" by (simp only: eq)
  then have "distinct (map fst (rev ?ps))" by (simp only: rev_map [symmetric] distinct_rev)
  moreover from assms(2,3) have "(child_name c, child_value c) \<in> set (rev ?ps)" by auto
  ultimately have "map_of (rev ?ps) (child_name c) = Some (child_value c)"
    by (rule map_of_is_SomeI)
  then have "map_of (dict_update [] ?ps) (child_name c) = Some (child_value c)"
    by (simp add: map_of_dict_update)
  with assms(4) show ?thesis
    by (simp add: SchemaProperty_parse_def Let_def map_of_dict_setitem)
qed

lemma default_child_defined:
  assumes "distinct (map child_name children)" and "c \<in> set children"
    and "child_name c = ''default''"
  shows "(''default'' \<in> fst ` set (SchemaProperty_parse children b init)) = defined c"
proof -
  have "(''default'' \<in> child_name ` {c \<in> set children. defined c}) = defined c"
  proof
    assume "''default'' \<in> child_name ` {c \<in> set children. defined c}"
    then obtain c' where c': "c' \<in> set children" "defined c'" "child_name c' = ''default''"
      by auto
    from assms c'(1,3) have "c' = c" by (metis distinct_map inj_onD)
    with c'(2) show "defined c" by simp
  next
    assume "defined c"
    with assms(2,3) show "''default'' \<in> child_name ` {c \<in> set children. defined c}"
      by force
  qed
  then show ?thesis by (simp add: keys_SchemaProperty_parse)
qed

section \<open>Merging a document into the accumulator\<close>

text \<open>
  C1, as the specification words it, fails on the code: a key of an override section that
  the accumulator already holds is not dropped in silence. \<open>assert_mergeable\<close> raises
  the non-mergeable-field error (code 3), for the spec's own example (the root declares
  \<open>timeout: 10\<close>, an import declares \<open>timeout: 20\<close>) in the whole pass and in the
  single merge.
\<close>

theorem override_discard_counterexample:
  "combine_imports 1 (table_env [(''file:a'', Dict [(''timeout'', Leaf ''20'')])])
     (Dict [(''imports'', Seq [Leaf ''file:a'']), (''timeout'', Leaf ''10'')])
     None None ''v1'' False
     = Some (Inl (NonMergeableField ''timeout''))
   \<and> merge_parsed_into_combined [(''timeout'', Leaf ''10'')] (Dict [(''timeout'', Leaf ''20'')]) None
     = Inl (NonMergeableField ''timeout'')"
  by code_simp

text \<open>
  C1, amended: for a top-level key outside the no-override sections and outside the
  ignored sections, a document that declares only this key is adopted when the
  accumulator has no such key, and raises the non-mergeable-field error naming the key
  when it has one; and whenever the merge of a document (a dict, so with distinct keys)
  that declares the key succeeds, the accumulator did not hold the key and the result
  holds the imported value under it.
\<close>

theorem override_section_merge:
  assumes "k \<notin> set MERGE_NO_OVERRIDE" and "k \<notin> set IGNORE"
  shows "(k \<notin> set (map fst combined) \<longrightarrow>
            merge_parsed_into_combined combined (Dict [(k, v)]) None = Inr (combined @ [(k, v)]))
       \<and> (k \<in> set (map fst combined) \<longrightarrow>
            merge_parsed_into_combined combined (Dict [(k, v)]) None = Inl (NonMergeableField k))
       \<and> (distinct (map fst items) \<and> (k, v) \<in> set items
            \<and> merge_parsed_into_combined combined (Dict items) None = Inr res \<longrightarrow>
            k \<notin> set (map fst combined) \<and> find (\<lambda>kv. fst kv = k) res = Some (k, v))"
proof (intro conjI impI)
  assume "k \<notin> set (map fst combined)"
  then show "merge_parsed_into_combined combined (Dict [(k, v)]) None = Inr (combined @ [(k, v)])"
    using assms find_key_None [of k combined] setitem_new [of k combined v]
    by (simp add: merge_parsed_into_combined_def)
next
  assume "k \<in> set (map fst combined)"
  then obtain found where "find (\<lambda>c. fst c = k) combined = Some found"
    using find_key_None [of k combined] by (cases "find (\<lambda>c. fst c = k) combined") auto
  then show "merge_parsed_into_combined combined (Dict [(k, v)]) None = Inl (NonMergeableField k)"
    using assms by (simp add: merge_parsed_into_combined_def assert_mergeable_def)
next
  assume a: "distinct (map fst items) \<and> (k, v) \<in> set items
    \<and> merge_parsed_into_combined combined (Dict items) None = Inr res"
  then have m: "merge_items MERGE_NO_OVERRIDE items combined = Inr res"
    by (simp add: merge_parsed_into_combined_def)
  from a have d: "distinct (map fst items)" and mem: "(k, v) \<in> set items" by simp_all
  from merge_items_adopts [OF m d mem assms]
  show "k \<notin> set (map fst combined)" and "find (\<lambda>kv. fst kv = k) res = Some (k, v)"
    by simp_all
qed

theorem override_section_merge_witness:
  "''timeout'' \<notin> set MERGE_NO_OVERRIDE \<and> ''timeout'' \<notin> set IGNORE
   \<and> merge_parsed_into_combined [] (Dict [(''timeout'', Leaf ''20'')]) None
       = Inr [(''timeout'', Leaf ''20'')]
   \<and> merge_parsed_into_combined [(''timeout'', Leaf ''10'')] (Dict [(''timeout'', Leaf ''20'')]) None
       = Inl (NonMergeableField ''timeout'')"
proof -
  have h1: "''timeout'' \<notin> set MERGE_NO_OVERRIDE" by code_simp
  have h2: "''timeout'' \<notin> set IGNORE" by code_simp
  from override_section_merge [OF h1 h2, where combined = "[]" and v = "Leaf ''20''"]
  have a: "merge_parsed_into_combined [] (Dict [(''timeout'', Leaf ''20'')]) None
      = Inr [(''timeout'', Leaf ''20'')]"
    by simp
  from override_section_merge [OF h1 h2, where combined = "[(''timeout'', Leaf ''10'')]"
      and v = "Leaf ''20''"]
  have b: "merge_parsed_into_combined [(''timeout'', Leaf ''10'')] (Dict [(''timeout'', Leaf ''20'')]) None
      = Inl (NonMergeableField ''timeout'')"
    by simp
  from h1 h2 a b show ?thesis by blast
qed

text \<open>
  C5: a document that declares only a no-override section, merged into an accumulator
  that holds a dict under that section, gives the items of the accumulator's section
  followed by those of the document's (the key-wise union) when no key of the document's
  section is in the accumulator's, and otherwise raises the conflict error (code 4) with
  the section and the first such key; a document with such a section and a common key
  never merges; and any document merges into the empty accumulator, which keeps its items
  outside the ignored sections.
\<close>

theorem no_override_section_merge:
  assumes "S \<in> set MERGE_NO_OVERRIDE" and "distinct (map fst b)"
    and "find (\<lambda>c. fst c = S) combined = Some (S', Dict a)"
  shows "merge_parsed_into_combined combined (Dict [(S, Dict b)]) None =
           (case find (\<lambda>kv. fst kv \<in> set (map fst a)) b of
              None \<Rightarrow> Inr (setitem combined S (Dict (a @ b)))
            | Some kv \<Rightarrow> Inl (MergeConflict S (fst kv)))
       \<and> (distinct (map fst items) \<and> (S, Dict b) \<in> set items
            \<and> set (map fst a) \<inter> set (map fst b) \<noteq> {} \<longrightarrow>
            isl (merge_parsed_into_combined combined (Dict items) None))
       \<and> (distinct (map fst items) \<longrightarrow>
            merge_parsed_into_combined [] (Dict items) None
              = Inr (filter (\<lambda>kv. fst kv \<notin> set IGNORE) items))"
proof (intro conjI impI)
  show "merge_parsed_into_combined combined (Dict [(S, Dict b)]) None =
           (case find (\<lambda>kv. fst kv \<in> set (map fst a)) b of
              None \<Rightarrow> Inr (setitem combined S (Dict (a @ b)))
            | Some kv \<Rightarrow> Inl (MergeConflict S (fst kv)))"
    using assms no_override_not_ignored [OF assms(1)] merge_into_dict_loop_result [OF assms(2), of S a]
    by (simp add: merge_parsed_into_combined_def merge_into_dict_or_throw_on_duplicate_def
        split: option.splits)
next
  assume "distinct (map fst items) \<and> (S, Dict b) \<in> set items
    \<and> set (map fst a) \<inter> set (map fst b) \<noteq> {}"
  then show "isl (merge_parsed_into_combined combined (Dict items) None)"
    using merge_items_conflict [of items S b MERGE_NO_OVERRIDE combined S' a]
      assms no_override_not_ignored [OF assms(1)]
    by (simp add: merge_parsed_into_combined_def)
next
  assume "distinct (map fst items)"
  then show "merge_parsed_into_combined [] (Dict items) None
    = Inr (filter (\<lambda>kv. fst kv \<notin> set IGNORE) items)"
    using merge_items_alone [of items "[]" MERGE_NO_OVERRIDE]
    by (simp add: merge_parsed_into_combined_def)
qed

theorem no_override_section_merge_witness:
  "NODE_TYPES \<in> set MERGE_NO_OVERRIDE
   \<and> merge_parsed_into_combined [(NODE_TYPES, Dict [(''k'', Leaf ''1'')])]
        (Dict [(NODE_TYPES, Dict [(''k'', Leaf ''2'')])]) None
       = Inl (MergeConflict NODE_TYPES ''k'')
   \<and> merge_parsed_into_combined [(NODE_TYPES, Dict [(''j'', Leaf ''1'')])]
        (Dict [(NODE_TYPES, Dict [(''k'', Leaf ''2'')])]) None
       = Inr [(NODE_TYPES, Dict [(''j'', Leaf ''1''), (''k'', Leaf ''2'')])]
   \<and> merge_parsed_into_combined [] (Dict [(NODE_TYPES, Dict [(''k'', Leaf ''2'')])]) None
       = Inr [(NODE_TYPES, Dict [(''k'', Leaf ''2'')])]"
proof -
  have h1: "NODE_TYPES \<in> set MERGE_NO_OVERRIDE" by code_simp
  have h2: "distinct (map fst [(''k'', Leaf ''2'')])" by simp
  have h3: "find (\<lambda>c. fst c = NODE_TYPES) [(NODE_TYPES, Dict [(''k'', Leaf ''1'')])]
      = Some (NODE_TYPES, Dict [(''k'', Leaf ''1'')])"
    by simp
  have h4: "find (\<lambda>c. fst c = NODE_TYPES) [(NODE_TYPES, Dict [(''j'', Leaf ''1'')])]
      = Some (NODE_TYPES, Dict [(''j'', Leaf ''1'')])"
    by simp
  have ni: "NODE_TYPES \<notin> set IGNORE" by code_simp
  from no_override_section_merge [OF h1 h2 h3, where items = "[(NODE_TYPES, Dict [(''k'', Leaf ''2'')])]"]
  have a: "merge_parsed_into_combined [(NODE_TYPES, Dict [(''k'', Leaf ''1'')])]
        (Dict [(NODE_TYPES, Dict [(''k'', Leaf ''2'')])]) None
       = Inl (MergeConflict NODE_TYPES ''k'')"
    and c: "merge_parsed_into_combined [] (Dict [(NODE_TYPES, Dict [(''k'', Leaf ''2'')])]) None
       = Inr [(NODE_TYPES, Dict [(''k'', Leaf ''2'')])]"
    using ni by simp_all
  from no_override_section_merge [OF h1 h2 h4, where items = "[]"]
  have b: "merge_parsed_into_combined [(NODE_TYPES, Dict [(''j'', Leaf ''1'')])]
        (Dict [(NODE_TYPES, Dict [(''k'', Leaf ''2'')])]) None
       = Inr [(NODE_TYPES, Dict [(''j'', Leaf ''1''), (''k'', Leaf ''2'')])]"
    by simp
  from h1 a b c show ?thesis by blast
qed

section \<open>The ignored sections and the version of the result\<close>

text \<open>
  C7: whenever a pass over a root document returns a merged result, the only item of the
  result under an ignored section name (the inline definitions, the imports, the version)
  is the version item of the root, with the root's value; when the root declares no
  version, the result has no item under any of these names. So no imports declaration, no
  inline definitions and no version of an imported document reach the result.
\<close>

theorem combine_imports_ignored:
  assumes "combine_imports fuel E (Dict root_items) dsl_location base vr validate = Some (Inr res)"
  shows "ignored_items res =
           (case find (\<lambda>kv. fst kv = VERSION) root_items of
              None \<Rightarrow> []
            | Some item \<Rightarrow> [(Some VERSION, Some (snd item))])"
proof (cases "build_ordered_imports fuel E (Dict root_items) dsl_location base")
  case None
  with assms show ?thesis by (simp add: combine_imports_def)
next
  case (Some r)
  show ?thesis
  proof (cases r)
    case (Inl e)
    with Some assms show ?thesis by (simp add: combine_imports_def)
  next
    case (Inr ordered)
    with Some assms
    have "combine_ordered_imports E (Dict root_items) vr validate ordered = Inr res"
      by (simp add: combine_imports_def)
    then show ?thesis by (rule combine_ordered_imports_ignored)
  qed
qed

theorem combine_imports_ignored_witness:
  "combine_imports 1
     (table_env [(''file:a'', Dict [(''tosca_definitions_version'', Leaf ''v2_0''),
                                   (''imports'', Seq []),
                                   (''dsl_definitions'', Dict [(''x'', Leaf ''1'')]),
                                   (''node_types'', Dict [(''t'', Dict [])])])])
     (Dict [(''tosca_definitions_version'', Leaf ''v2''), (''imports'', Seq [Leaf ''file:a'']),
            (''dsl_definitions'', Dict [(''y'', Leaf ''2'')]),
            (''node_types'', Dict [(''r'', Dict [])])])
     None None ''v2'' False
     = Some (Inr [(Some ''node_types'', Some (Dict [(''r'', Dict []), (''t'', Dict [])])),
                  (Some ''tosca_definitions_version'', Some (Leaf ''v2''))])
   \<and> ignored_items [(Some ''node_types'', Some (Dict [(''r'', Dict []), (''t'', Dict [])])),
                    (Some ''tosca_definitions_version'', Some (Leaf ''v2''))]
     = [(Some VERSION, Some (Leaf ''v2''))]"
proof -
  have r: "combine_imports 1
     (table_env [(''file:a'', Dict [(''tosca_definitions_version'', Leaf ''v2_0''),
                                   (''imports'', Seq []),
                                   (''dsl_definitions'', Dict [(''x'', Leaf ''1'')]),
                                   (''node_types'', Dict [(''t'', Dict [])])])])
     (Dict [(''tosca_definitions_version'', Leaf ''v2''), (''imports'', Seq [Leaf ''file:a'']),
            (''dsl_definitions'', Dict [(''y'', Leaf ''2'')]),
            (''node_types'', Dict [(''r'', Dict [])])])
     None None ''v2'' False
     = Some (Inr [(Some ''node_types'', Some (Dict [(''r'', Dict []), (''t'', Dict [])])),
                  (Some ''tosca_definitions_version'', Some (Leaf ''v2''))])"
    by code_simp
  from combine_imports_ignored [OF r]
  have "ignored_items [(Some ''node_types'', Some (Dict [(''r'', Dict []), (''t'', Dict [])])),
                    (Some ''tosca_definitions_version'', Some (Leaf ''v2''))]
     = [(Some VERSION, Some (Leaf ''v2''))]"
    by (simp add: VERSION_def)
  with r show ?thesis by (rule conjI)
qed

section \<open>The version check\<close>

text \<open>
  C4, as the specification words it, fails on the code in its second example: an import
  that declares \<open>v2_0\<close> under a root that declares \<open>v2\<close> is refused, by the check
  alone and by the pass with validation on. The code appends \<open>_0\<close> to the import's
  version before it compares with the root's.
\<close>

theorem version_suffix_counterexample:
  "validate_version (table_env []) ''v2'' ''file:a''
     (Dict [(''tosca_definitions_version'', Leaf ''v2_0'')])
     = Inl (DifferentVersion ''v2'' ''file:a'' (Leaf ''v2_0''))
   \<and> combine_imports 1
       (table_env [(''file:a'', Dict [(''tosca_definitions_version'', Leaf ''v2_0'')])])
       (Dict [(''tosca_definitions_version'', Leaf ''v2''), (''imports'', Seq [Leaf ''file:a''])])
       None None ''v2'' True
     = Some (Inl (DifferentVersion ''v2'' ''file:a'' (Leaf ''v2_0'')))"
  by code_simp

text \<open>
  C4, amended: for an import that declares a version (a string), the check raises the
  different-version error (code 28) exactly when the declared version differs from the
  root's version and from the root's version with a trailing \<open>_0\<close> removed, and passes
  otherwise. So an import declaring \<open>v1\<close> under a root declaring \<open>v2\<close> fails, and an
  import declaring \<open>v2\<close> under a root declaring \<open>v2_0\<close> is accepted.
\<close>

theorem validate_version_declared:
  assumes "find (\<lambda>kv. fst kv = VERSION) items = Some (k, Leaf iv)"
  shows "(validate_version E root url (Dict items) = Inl (DifferentVersion root url (Leaf iv)))
           = (iv \<noteq> root \<and> iv \<noteq> without_trailing_0 root)
         \<and> (validate_version E root url (Dict items) = Inr ())
           = (iv = root \<or> iv = without_trailing_0 root)"
  using assms append_0_eq_iff [of iv root]
  by (auto simp: validate_version_def)

theorem validate_version_declared_witness:
  "find (\<lambda>kv. fst kv = VERSION) [(VERSION, Leaf ''v2'')] = Some (VERSION, Leaf ''v2'')
   \<and> validate_version (table_env []) ''v2_0'' ''file:a'' (Dict [(VERSION, Leaf ''v2'')]) = Inr ()
   \<and> find (\<lambda>kv. fst kv = VERSION) [(VERSION, Leaf ''v1'')] = Some (VERSION, Leaf ''v1'')
   \<and> validate_version (table_env []) ''v2'' ''file:a'' (Dict [(VERSION, Leaf ''v1'')])
       = Inl (DifferentVersion ''v2'' ''file:a'' (Leaf ''v1''))"
proof -
  have f2: "find (\<lambda>kv. fst kv = VERSION) [(VERSION, Leaf ''v2'')] = Some (VERSION, Leaf ''v2'')"
    by simp
  have f1: "find (\<lambda>kv. fst kv = VERSION) [(VERSION, Leaf ''v1'')] = Some (VERSION, Leaf ''v1'')"
    by simp
  have w: "without_trailing_0 ''v2_0'' = ''v2''" and w': "without_trailing_0 ''v2'' = ''v2''"
    by (simp_all add: without_trailing_0_def)
  from validate_version_declared [OF f2, where root = "''v2_0''"] w
  have a: "validate_version (table_env []) ''v2_0'' ''file:a'' (Dict [(VERSION, Leaf ''v2'')]) = Inr ()"
    by simp
  from validate_version_declared [OF f1, where root = "''v2''"] w'
  have b: "validate_version (table_env []) ''v2'' ''file:a'' (Dict [(VERSION, Leaf ''v1'')])
       = Inl (DifferentVersion ''v2'' ''file:a'' (Leaf ''v1''))"
    by simp
  from f2 a f1 b show ?thesis by blast
qed

text \<open>
  C10, as the specification words it, fails on the code: the check tests the item that
  \<open>get_item\<close> returns, not the value in it. An imported document whose version item
  holds \<open>None\<close>, so that it declares no version value, is refused under a root that
  declares \<open>v2\<close>, by the check alone and by the pass with validation on.
\<close>

theorem null_version_counterexample:
  "validate_version (table_env []) ''v2'' ''file:a''
     (Dict [(''tosca_definitions_version'', Null)])
     = Inl (DifferentVersion ''v2'' ''file:a'' Null)
   \<and> combine_imports 1
       (table_env [(''file:a'', Dict [(''tosca_definitions_version'', Null)])])
       (Dict [(''tosca_definitions_version'', Leaf ''v2''), (''imports'', Seq [Leaf ''file:a''])])
       None None ''v2'' True
     = Some (Inl (DifferentVersion ''v2'' ''file:a'' Null))"
  by code_simp

text \<open>
  C10, amended: the check accepts every imported document (a dict) that has no version
  item, whatever the root's version; when the check raises on a dict, the document has a
  version item and the error is the different-version error for that item; and a version
  item that holds \<open>None\<close> is refused with that error for every root version other than
  \<open>None_0\<close>, and accepted for that one.
\<close>

theorem no_version_item_accepted:
  "(VERSION \<notin> set (map fst items) \<longrightarrow> validate_version E root url (Dict items) = Inr ())
   \<and> (validate_version E root url (Dict items) = Inl e \<longrightarrow>
        (\<exists>item. find (\<lambda>kv. fst kv = VERSION) items = Some item
                \<and> e = DifferentVersion root url (snd item)))
   \<and> (find (\<lambda>kv. fst kv = VERSION) items = Some (k, Null) \<longrightarrow>
        (validate_version E root url (Dict items) = Inl (DifferentVersion root url Null))
          = (root \<noteq> ''None_0'')
        \<and> (validate_version E root url (Dict items) = Inr ()) = (root = ''None_0''))"
  by (auto simp: validate_version_def find_key_None [symmetric] simp del: set_map
      split: option.splits if_splits)

theorem no_version_item_accepted_witness:
  "VERSION \<notin> set (map fst [(NODE_TYPES, Dict [])])
   \<and> validate_version (table_env []) ''v2'' ''file:a'' (Dict [(NODE_TYPES, Dict [])]) = Inr ()
   \<and> validate_version (table_env []) ''v2'' ''file:a'' (Dict [(VERSION, Leaf ''v1'')])
       = Inl (DifferentVersion ''v2'' ''file:a'' (Leaf ''v1''))
   \<and> find (\<lambda>kv. fst kv = VERSION) [(VERSION, Leaf ''v1'')] = Some (VERSION, Leaf ''v1'')
   \<and> find (\<lambda>kv. fst kv = VERSION) [(VERSION, Null)] = Some (VERSION, Null)
   \<and> validate_version (table_env []) ''v2'' ''file:a'' (Dict [(VERSION, Null)])
       = Inl (DifferentVersion ''v2'' ''file:a'' Null)
   \<and> validate_version (table_env []) ''None_0'' ''file:a'' (Dict [(VERSION, Null)]) = Inr ()"
proof -
  have h: "VERSION \<notin> set (map fst [(NODE_TYPES, Dict [])])" by code_simp
  from no_version_item_accepted [where items = "[(NODE_TYPES, Dict [])]" and E = "table_env []"
      and root = "''v2''" and url = "''file:a''"] h
  have a: "validate_version (table_env []) ''v2'' ''file:a'' (Dict [(NODE_TYPES, Dict [])]) = Inr ()"
    by blast
  have b: "validate_version (table_env []) ''v2'' ''file:a'' (Dict [(VERSION, Leaf ''v1'')])
       = Inl (DifferentVersion ''v2'' ''file:a'' (Leaf ''v1''))"
    by code_simp
  from no_version_item_accepted [where items = "[(VERSION, Leaf ''v1'')]" and E = "table_env []"
      and root = "''v2''" and url = "''file:a''"
      and e = "DifferentVersion ''v2'' ''file:a'' (Leaf ''v1'')"] b
  have c: "find (\<lambda>kv. fst kv = VERSION) [(VERSION, Leaf ''v1'')] = Some (VERSION, Leaf ''v1'')"
    by simp
  have f: "find (\<lambda>kv. fst kv = VERSION) [(VERSION, Null)] = Some (VERSION, Null)" by simp
  from no_version_item_accepted [where items = "[(VERSION, Null)]" and E = "table_env []"
      and root = "''v2''" and url = "''file:a''" and k = VERSION
      and e = "DifferentVersion ''v2'' ''file:a'' Null"] f
  have d: "validate_version (table_env []) ''v2'' ''file:a'' (Dict [(VERSION, Null)])
       = Inl (DifferentVersion ''v2'' ''file:a'' Null)"
    by simp
  from no_version_item_accepted [where items = "[(VERSION, Null)]" and E = "table_env []"
      and root = "''None_0''" and url = "''file:a''" and k = VERSION
      and e = "DifferentVersion ''v2'' ''file:a'' Null"] f
  have g: "validate_version (table_env []) ''None_0'' ''file:a'' (Dict [(VERSION, Null)]) = Inr ()"
    by simp
  from h a b c f d g show ?thesis by blast
qed

section \<open>The order of the imports\<close>

text \<open>
  C2, as the specification words it, fails on the code: the tree has an edge from each
  import to the document that first imported it, the library's sort puts the import
  before its importer, and \<open>ImportsGraph.topological_sort\<close> reverses that list. For a
  root that imports one document the root comes first, not last.
\<close>

theorem root_last_counterexample:
  "build_ordered_imports 1 (table_env [(''file:a'', Dict [(''plugins'', Dict [])])])
     (Dict [(''imports'', Seq [Leaf ''file:a''])]) None None
     = Some (Inr [(''root'', Dict [(''imports'', Seq [Leaf ''file:a''])]),
                  (''file:a'', Dict [(''plugins'', Dict [])])])
   \<and> edges (built_tree 1 (table_env [(''file:a'', Dict [(''plugins'', Dict [])])])
        (Dict [(''imports'', Seq [Leaf ''file:a''])]) None None)
     = [(''file:a'', ''root'')]"
  by code_simp

text \<open>
  C2, amended: when the library's sort of the tree returns a topological order, the
  ordering operation returns that list reversed: every registered document once, and each
  document before every document that reaches it by tree edges, that is an importer
  before the documents first discovered through it. For the graph a walk has built (with
  an absolute-path function that never returns the empty string) the root document comes
  first. The merge runs over the ordered imports from the front: one document is checked
  and then merged into the accumulator, and for every split of the ordering into an
  earlier and a later part the pass merges the earlier part into the empty accumulator,
  ends with its error when it has one, and merges the later part into what the earlier
  part left.
\<close>

theorem ordering_importers_first:
  assumes "nx_topological_sort E (imports_tree g) = Inr ts"
    and "nx_topological_order (imports_tree g) ts"
    and "ImportsGraph_topological_sort E g = Inr entries"
  shows "map fst entries = rev ts \<and> distinct (map fst entries)
       \<and> set (map fst entries) = set (map fst (nodes (imports_tree g)))
       \<and> ((u, v) \<in> (set (edges (imports_tree g)))\<^sup>+ \<longrightarrow> precedes v u (map fst entries))
       \<and> (abspath_ok E \<and> g = graph (fst (build_imports_graph fuel E parsed_dsl dsl_location base))
            \<longrightarrow> hd (map fst entries) = location dsl_location)
       \<and> merge_ordered E validate version_raw [x] combined
           = (case (if validate then validate_version E version_raw (fst x) (snd x) else Inr ()) of
                Inl e \<Rightarrow> Inl e
              | Inr ok \<Rightarrow> merge_parsed_into_combined combined (snd x) None)
       \<and> (build_ordered_imports fuel E parsed_dsl dsl_location base = Some (Inr (xs @ ys))
            \<longrightarrow> combine_imports fuel E parsed_dsl dsl_location base version_raw validate
                = Some (case get_item parsed_dsl VERSION of
                          Inl e \<Rightarrow> Inl e
                        | Inr version_item \<Rightarrow>
                            (case merge_ordered E validate version_raw xs [] of
                               Inl e \<Rightarrow> Inl e
                             | Inr earlier \<Rightarrow>
                                 (case merge_ordered E validate version_raw ys earlier of
                                    Inl e \<Rightarrow> Inl e
                                  | Inr merged \<Rightarrow> Inr (set_version_item version_item merged)))))"
proof (intro conjI impI)
  note s = sorted_entries [OF assms]
  show k: "map fst entries = rev ts" by (rule s(1))
  show "distinct (map fst entries)" by (rule s(2))
  show "set (map fst entries) = set (map fst (nodes (imports_tree g)))" by (rule s(3))
  from assms(2) have d: "distinct ts" by (simp add: nx_topological_order_def)
  {
    assume "(u, v) \<in> (set (edges (imports_tree g)))\<^sup>+"
    from order_trancl [OF assms(2) this] have "precedes u v ts" .
    with d show "precedes v u (map fst entries)" unfolding k by (rule precedes_rev)
  }
  {
    assume a: "abspath_ok E \<and> g = graph (fst (build_imports_graph fuel E parsed_dsl dsl_location base))"
    with build_imports_graph_post(1) [of E dsl_location fuel parsed_dsl base]
    have "tree_inv (location dsl_location) (imports_tree g)" by simp
    then have "reaches_root (location dsl_location) (imports_tree g)"
      and "location dsl_location \<in> set (map fst (nodes (imports_tree g)))"
      by (simp_all add: tree_inv_def)
    from order_root_last [OF assms(2) this]
    show "hd (map fst entries) = location dsl_location" unfolding k .
  }
  show "merge_ordered E validate version_raw [x] combined
           = (case (if validate then validate_version E version_raw (fst x) (snd x) else Inr ()) of
                Inl e \<Rightarrow> Inl e
              | Inr ok \<Rightarrow> merge_parsed_into_combined combined (snd x) None)"
    by (cases validate) (simp_all split: sum.splits)
  {
    assume "build_ordered_imports fuel E parsed_dsl dsl_location base = Some (Inr (xs @ ys))"
    then show "combine_imports fuel E parsed_dsl dsl_location base version_raw validate
                = Some (case get_item parsed_dsl VERSION of
                          Inl e \<Rightarrow> Inl e
                        | Inr version_item \<Rightarrow>
                            (case merge_ordered E validate version_raw xs [] of
                               Inl e \<Rightarrow> Inl e
                             | Inr earlier \<Rightarrow>
                                 (case merge_ordered E validate version_raw ys earlier of
                                    Inl e \<Rightarrow> Inl e
                                  | Inr merged \<Rightarrow> Inr (set_version_item version_item merged))))"
      by (simp add: combine_imports_def combine_ordered_imports_def merge_ordered_append
          split: sum.splits)
  }
qed

theorem ordering_importers_first_witness:
  "nx_topological_sort (table_env diamond_docs) (imports_tree diamond_graph)
     = Inr [''file:c'', ''file:a'', ''file:b'', ''root'']
   \<and> nx_topological_order (imports_tree diamond_graph) [''file:c'', ''file:a'', ''file:b'', ''root'']
   \<and> ImportsGraph_topological_sort (table_env diamond_docs) diamond_graph = Inr diamond_ordered
   \<and> map fst diamond_ordered = [''root'', ''file:b'', ''file:a'', ''file:c'']
   \<and> (''file:c'', ''root'') \<in> (set (edges (imports_tree diamond_graph)))\<^sup>+
   \<and> precedes ''root'' ''file:c'' (map fst diamond_ordered)
   \<and> abspath_ok (table_env diamond_docs)
   \<and> hd (map fst diamond_ordered) = location None
   \<and> merge_ordered (table_env diamond_docs) False ''v1'' [(''root'', diamond_root)] []
       = Inr [(''description'', Leaf ''diamond'')]
   \<and> build_ordered_imports 2 (table_env diamond_docs) diamond_root None None
       = Some (Inr (take 2 diamond_ordered @ drop 2 diamond_ordered))
   \<and> merge_ordered (table_env diamond_docs) False ''v1'' (take 2 diamond_ordered) []
       = Inr [(''description'', Leaf ''diamond''), (''outputs'', Dict [])]
   \<and> combine_imports 2 (table_env diamond_docs) diamond_root None None ''v1'' False
       = Some (Inr [(Some ''description'', Some (Leaf ''diamond'')),
                    (Some ''outputs'', Some (Dict [])),
                    (Some ''inputs'', Some (Dict [])),
                    (Some ''plugins'', Some (Dict [])),
                    (None, None)])"
proof -
  have tr: "(''file:c'', ''root'') \<in> (set (edges (imports_tree diamond_graph)))\<^sup>+"
  proof -
    have "(''file:c'', ''file:a'') \<in> set (edges (imports_tree diamond_graph))"
      and "(''file:a'', ''root'') \<in> set (edges (imports_tree diamond_graph))"
      by (simp_all add: diamond_edges)
    then show ?thesis by (meson trancl.intros)
  qed
  have ok: "abspath_ok (table_env diamond_docs)" by (rule abspath_ok_table_env)
  have m: "map fst diamond_ordered = [''root'', ''file:b'', ''file:a'', ''file:c'']"
    by (simp add: diamond_ordered_def)
  have b: "build_ordered_imports 2 (table_env diamond_docs) diamond_root None None
       = Some (Inr (take 2 diamond_ordered @ drop 2 diamond_ordered))"
    by code_simp
  have e: "merge_ordered (table_env diamond_docs) False ''v1'' (take 2 diamond_ordered) []
       = Inr [(''description'', Leaf ''diamond''), (''outputs'', Dict [])]"
    by code_simp
  have r: "(case get_item diamond_root VERSION of
              Inl e \<Rightarrow> Inl e
            | Inr version_item \<Rightarrow>
                (case merge_ordered (table_env diamond_docs) False ''v1'' (take 2 diamond_ordered) [] of
                   Inl e \<Rightarrow> Inl e
                 | Inr earlier \<Rightarrow>
                     (case merge_ordered (table_env diamond_docs) False ''v1''
                             (drop 2 diamond_ordered) earlier of
                        Inl e \<Rightarrow> Inl e
                      | Inr merged \<Rightarrow> Inr (set_version_item version_item merged))))
       = Inr [(Some ''description'', Some (Leaf ''diamond'')),
              (Some ''outputs'', Some (Dict [])),
              (Some ''inputs'', Some (Dict [])),
              (Some ''plugins'', Some (Dict [])),
              (None, None)]"
    by code_simp
  have o: "(case (if False then validate_version (table_env diamond_docs) ''v1''
                       (fst (''root'', diamond_root)) (snd (''root'', diamond_root))
                  else Inr ()) of
              Inl e \<Rightarrow> Inl e
            | Inr ok \<Rightarrow> merge_parsed_into_combined [] (snd (''root'', diamond_root)) None)
       = Inr [(''description'', Leaf ''diamond'')]"
    by code_simp
  note t = ordering_importers_first [OF diamond_sort diamond_order diamond_entries,
      where u = "''file:c''" and v = "''root''" and fuel = 2 and parsed_dsl = diamond_root
      and dsl_location = None and base = None and validate = False and version_raw = "''v1''"
      and x = "(''root'', diamond_root)" and combined = "[]"
      and xs = "take 2 diamond_ordered" and ys = "drop 2 diamond_ordered"]
  note t4 = t [THEN conjunct2, THEN conjunct2, THEN conjunct2, THEN conjunct1]
  note t5 = t [THEN conjunct2, THEN conjunct2, THEN conjunct2, THEN conjunct2, THEN conjunct1]
  note t6 = t [THEN conjunct2, THEN conjunct2, THEN conjunct2, THEN conjunct2, THEN conjunct2,
      THEN conjunct1]
  note t7 = t [THEN conjunct2, THEN conjunct2, THEN conjunct2, THEN conjunct2, THEN conjunct2,
      THEN conjunct2]
  from t4 tr have p: "precedes ''root'' ''file:c'' (map fst diamond_ordered)"
    by (rule mp)
  from ok have "abspath_ok (table_env diamond_docs)
      \<and> diamond_graph = graph (fst (build_imports_graph 2 (table_env diamond_docs) diamond_root None None))"
    by (simp add: diamond_graph_def)
  with t5 have h: "hd (map fst diamond_ordered) = location None"
    by (rule mp)
  from t6 have s: "merge_ordered (table_env diamond_docs) False ''v1'' [(''root'', diamond_root)] []
       = Inr [(''description'', Leaf ''diamond'')]"
    unfolding o .
  from t7 b have c: "combine_imports 2 (table_env diamond_docs) diamond_root None None ''v1'' False
       = Some (Inr [(Some ''description'', Some (Leaf ''diamond'')),
                    (Some ''outputs'', Some (Dict [])),
                    (Some ''inputs'', Some (Dict [])),
                    (Some ''plugins'', Some (Dict [])),
                    (None, None)])"
    unfolding r by (rule mp)
  from diamond_sort diamond_order diamond_entries m tr p ok h s b e c show ?thesis by blast
qed

section \<open>Cyclic imports\<close>

text \<open>
  C3, as the specification words it, fails on the code: for a root that imports \<open>a\<close>,
  with \<open>a\<close> importing \<open>b\<close> and \<open>b\<close> importing \<open>a\<close>, the ordered imports
  are built with no error. The second meeting of \<open>a\<close> only adds an edge to the full
  graph, and the sort runs on the tree.
\<close>

theorem import_cycle_counterexample:
  "build_ordered_imports 2 (table_env cycle_docs) cycle_root None None
     = Some (Inr [(''root'', Dict [(''imports'', Seq [Leaf ''file:a''])]),
                  (''file:a'', Dict [(''imports'', Seq [Leaf ''file:b''])]),
                  (''file:b'', Dict [(''imports'', Seq [Leaf ''file:a''])])])"
  by code_simp

text \<open>
  C3, amended: whatever the documents import, cycles included, the tree of first
  discoveries that the walk leaves has a topological order, namely its nodes in reverse
  order of registration. For a closed configuration over finitely many locations, cyclic
  or not, the walk returns without an exception as soon as the fuel is at least the
  number of locations; and then a sort that honours the library's contract on this tree
  (an order when it returns, no order at all when it raises) returns, and the ordering
  operation yields an entry for every registered document, with no error. An import
  that resolves to a document already registered is not walked again: the loop goes on
  with the rest, the tree as it was, and the full graph holding the edge from that
  document to the importing one.
\<close>

theorem cyclic_imports_ordered:
  assumes "abspath_ok E"
  shows "nx_topological_order (built_tree fuel E parsed_dsl dsl_location base)
           (rev (map fst (nodes (built_tree fuel E parsed_dsl dsl_location base))))
       \<and> (closed_config E base us \<and> well_formed E base us parsed_dsl \<and> length us \<le> fuel
           \<longrightarrow> snd (build_imports_graph fuel E parsed_dsl dsl_location base) = Done
               \<and> ((case nx_topological_sort E (built_tree fuel E parsed_dsl dsl_location base) of
                      Inr ts \<Rightarrow> nx_topological_order (built_tree fuel E parsed_dsl dsl_location base) ts
                    | Inl e \<Rightarrow> \<not> (\<exists>ts. nx_topological_order
                                         (built_tree fuel E parsed_dsl dsl_location base) ts))
                   \<longrightarrow> (\<exists>entries. build_ordered_imports fuel E parsed_dsl dsl_location base
                                     = Some (Inr entries)
                          \<and> set (map fst entries)
                            = set (map fst (nodes (built_tree fuel E parsed_dsl dsl_location base))))))
       \<and> (get_resource_location E name base = Some u \<and> ImportsGraph_contains (graph st) u
           \<longrightarrow> import_loop fuel E base (Leaf name # rest) current_import st
                 = import_loop fuel E base rest current_import
                     (st\<lparr>graph := add_graph_dependency (graph st) u (Some (location current_import))\<rparr>)
               \<and> imports_tree (add_graph_dependency (graph st) u (Some (location current_import)))
                 = imports_tree (graph st)
               \<and> (u, location current_import)
                 \<in> set (edges (imports_graph
                           (add_graph_dependency (graph st) u (Some (location current_import))))))"
proof (intro conjI impI)
  let ?T = "built_tree fuel E parsed_dsl dsl_location base"
  let ?B = "build_imports_graph fuel E parsed_dsl dsl_location base"
  from build_imports_graph_post(1) [OF assms, of dsl_location fuel parsed_dsl base]
  have inv: "tree_inv (location dsl_location) ?T" by (simp add: built_tree_def)
  then show o: "nx_topological_order ?T (rev (map fst (nodes ?T)))"
    by (simp add: tree_inv_def)
  {
    assume h: "closed_config E base us \<and> well_formed E base us parsed_dsl \<and> length us \<le> fuel"
    then have "closed_config E base us" and "well_formed E base us parsed_dsl"
      and "length us \<le> fuel"
      by simp_all
    then show d: "snd ?B = Done" by (rule build_imports_graph_done)
    assume c: "case nx_topological_sort E ?T of
        Inr ts \<Rightarrow> nx_topological_order ?T ts
      | Inl e \<Rightarrow> \<not> (\<exists>ts. nx_topological_order ?T ts)"
    from d have b: "build_ordered_imports fuel E parsed_dsl dsl_location base
        = Some (ImportsGraph_topological_sort E (graph (fst ?B)))"
      by (cases ?B) (simp add: build_ordered_imports_def)
    show "\<exists>entries. build_ordered_imports fuel E parsed_dsl dsl_location base = Some (Inr entries)
        \<and> set (map fst entries) = set (map fst (nodes ?T))"
    proof (cases "nx_topological_sort E ?T")
      case (Inl e)
      with c o show ?thesis by auto
    next
      case (Inr ts)
      with c have ord: "nx_topological_order ?T ts" by simp
      then have "set (rev ts) \<subseteq> set (map fst (nodes ?T))"
        by (simp add: nx_topological_order_def)
      moreover from inv have "list_all (\<lambda>na. snd na \<noteq> None) (nodes ?T)"
        by (simp add: tree_inv_def)
      ultimately obtain es where "import_entries ?T (rev ts) = Inr es"
        using import_entries_total by blast
      with Inr have es: "ImportsGraph_topological_sort E (graph (fst ?B)) = Inr es"
        by (simp add: ImportsGraph_topological_sort_def built_tree_def)
      from Inr ord have "set (map fst es) = set (map fst (nodes ?T))"
        using sorted_entries(3) [of E "graph (fst ?B)" ts es] es
        by (simp add: built_tree_def)
      with b es show ?thesis by simp
    qed
  }
  {
    assume m: "get_resource_location E name base = Some u \<and> ImportsGraph_contains (graph st) u"
    then have l: "get_resource_location E name base = Some u"
      and g: "ImportsGraph_contains (graph st) u"
      by simp_all
    show "import_loop fuel E base (Leaf name # rest) current_import st
        = import_loop fuel E base rest current_import
            (st\<lparr>graph := add_graph_dependency (graph st) u (Some (location current_import))\<rparr>)"
      by (rule import_loop_met_again(1) [OF l g])
    show "imports_tree (add_graph_dependency (graph st) u (Some (location current_import)))
        = imports_tree (graph st)"
      by (rule import_loop_met_again(2) [OF l g])
    show "(u, location current_import)
        \<in> set (edges (imports_graph
                  (add_graph_dependency (graph st) u (Some (location current_import)))))"
      by (rule import_loop_met_again(3) [OF l g])
  }
qed

theorem cyclic_imports_ordered_witness:
  "abspath_ok (table_env cycle_docs)
   \<and> closed_config (table_env cycle_docs) None [''file:a'', ''file:b'']
   \<and> well_formed (table_env cycle_docs) None [''file:a'', ''file:b''] cycle_root
   \<and> length [''file:a'', ''file:b''] \<le> (2 :: nat)
   \<and> nx_topological_sort (table_env cycle_docs) (built_tree 2 (table_env cycle_docs) cycle_root None None)
       = Inr [''file:b'', ''file:a'', ''root'']
   \<and> nx_topological_order (built_tree 2 (table_env cycle_docs) cycle_root None None)
       [''file:b'', ''file:a'', ''root'']
   \<and> nx_topological_order (built_tree 2 (table_env cycle_docs) cycle_root None None)
       (rev (map fst (nodes (built_tree 2 (table_env cycle_docs) cycle_root None None))))
   \<and> snd (build_imports_graph 2 (table_env cycle_docs) cycle_root None None) = Done
   \<and> (\<exists>entries. build_ordered_imports 2 (table_env cycle_docs) cycle_root None None
                   = Some (Inr entries)
        \<and> set (map fst entries)
          = set (map fst (nodes (built_tree 2 (table_env cycle_docs) cycle_root None None))))
   \<and> get_resource_location (table_env cycle_docs) ''file:a'' None = Some ''file:a''
   \<and> ImportsGraph_contains (graph cycle_met_again) ''file:a''
   \<and> edges (imports_graph (graph cycle_met_again))
       = [(''file:a'', ''root''), (''file:b'', ''file:a'')]
   \<and> import_loop 2 (table_env cycle_docs) None [Leaf ''file:a''] (Some ''file:b'') cycle_met_again
       = (cycle_met_again\<lparr>graph := add_graph_dependency (graph cycle_met_again) ''file:a''
                                     (Some ''file:b'')\<rparr>, Done)
   \<and> imports_tree (add_graph_dependency (graph cycle_met_again) ''file:a'' (Some ''file:b''))
       = imports_tree (graph cycle_met_again)
   \<and> (''file:a'', ''file:b'')
       \<in> set (edges (imports_graph (add_graph_dependency (graph cycle_met_again) ''file:a''
                                      (Some ''file:b''))))
   \<and> edges (built_tree 2 (table_env cycle_docs) cycle_root None None)
       = [(''file:a'', ''root''), (''file:b'', ''file:a'')]
   \<and> edges (imports_graph (graph (fst (build_imports_graph 2 (table_env cycle_docs)
        cycle_root None None))))
       = [(''file:a'', ''root''), (''file:b'', ''file:a''), (''file:a'', ''file:b'')]"
proof -
  have h1: "abspath_ok (table_env cycle_docs)" by (rule abspath_ok_table_env)
  have h2: "nx_topological_sort (table_env cycle_docs)
      (built_tree 2 (table_env cycle_docs) cycle_root None None)
       = Inr [''file:b'', ''file:a'', ''root'']"
    by code_simp
  have h3: "nx_topological_order (built_tree 2 (table_env cycle_docs) cycle_root None None)
       [''file:b'', ''file:a'', ''root'']"
    by code_simp
  have h4: "closed_config (table_env cycle_docs) None [''file:a'', ''file:b'']"
    by (simp add: closed_config_def table_env_def cycle_docs_def well_formed_def
        resolves_into_def get_resource_location_def IMPORTS_def)
  have h5: "well_formed (table_env cycle_docs) None [''file:a'', ''file:b''] cycle_root"
    by code_simp
  have h6: "length [''file:a'', ''file:b''] \<le> (2 :: nat)" by simp
  have h7: "get_resource_location (table_env cycle_docs) ''file:a'' None = Some ''file:a''"
    by code_simp
  have h8: "ImportsGraph_contains (graph cycle_met_again) ''file:a''" by code_simp
  have e0: "edges (imports_graph (graph cycle_met_again))
       = [(''file:a'', ''root''), (''file:b'', ''file:a'')]"
    by code_simp
  have e1: "edges (built_tree 2 (table_env cycle_docs) cycle_root None None)
       = [(''file:a'', ''root''), (''file:b'', ''file:a'')]"
    by code_simp
  have e2: "edges (imports_graph (graph (fst (build_imports_graph 2 (table_env cycle_docs)
        cycle_root None None))))
       = [(''file:a'', ''root''), (''file:b'', ''file:a''), (''file:a'', ''file:b'')]"
    by code_simp
  have l: "location (Some ''file:b'') = ''file:b''" by (simp add: location_Some)
  note t = cyclic_imports_ordered [OF h1, where fuel = 2 and parsed_dsl = cycle_root
      and dsl_location = None and base = None and us = "[''file:a'', ''file:b'']"
      and name = "''file:a''" and u = "''file:a''" and st = cycle_met_again
      and rest = "[]" and current_import = "Some ''file:b''"]
  note t1 = t [THEN conjunct1]
  note t2 = t [THEN conjunct2, THEN conjunct1]
  note t3 = t [THEN conjunct2, THEN conjunct2]
  from h4 h5 h6 have "closed_config (table_env cycle_docs) None [''file:a'', ''file:b'']
      \<and> well_formed (table_env cycle_docs) None [''file:a'', ''file:b''] cycle_root
      \<and> length [''file:a'', ''file:b''] \<le> 2"
    by blast
  with t2 have r: "snd (build_imports_graph 2 (table_env cycle_docs) cycle_root None None) = Done
      \<and> ((case nx_topological_sort (table_env cycle_docs)
                 (built_tree 2 (table_env cycle_docs) cycle_root None None) of
             Inr ts \<Rightarrow> nx_topological_order (built_tree 2 (table_env cycle_docs) cycle_root None None) ts
           | Inl e \<Rightarrow> \<not> (\<exists>ts. nx_topological_order
                                (built_tree 2 (table_env cycle_docs) cycle_root None None) ts))
          \<longrightarrow> (\<exists>entries. build_ordered_imports 2 (table_env cycle_docs) cycle_root None None
                            = Some (Inr entries)
                 \<and> set (map fst entries)
                   = set (map fst (nodes (built_tree 2 (table_env cycle_docs) cycle_root None None)))))"
    by (rule mp)
  then have d: "snd (build_imports_graph 2 (table_env cycle_docs) cycle_root None None) = Done"
    by (rule conjunct1)
  from h2 h3 have "case nx_topological_sort (table_env cycle_docs)
                 (built_tree 2 (table_env cycle_docs) cycle_root None None) of
             Inr ts \<Rightarrow> nx_topological_order (built_tree 2 (table_env cycle_docs) cycle_root None None) ts
           | Inl e \<Rightarrow> \<not> (\<exists>ts. nx_topological_order
                                (built_tree 2 (table_env cycle_docs) cycle_root None None) ts)"
    by simp
  with r [THEN conjunct2]
  have b: "\<exists>entries. build_ordered_imports 2 (table_env cycle_docs) cycle_root None None
                   = Some (Inr entries)
        \<and> set (map fst entries)
          = set (map fst (nodes (built_tree 2 (table_env cycle_docs) cycle_root None None)))"
    by (rule mp)
  from h7 h8 have "get_resource_location (table_env cycle_docs) ''file:a'' None = Some ''file:a''
      \<and> ImportsGraph_contains (graph cycle_met_again) ''file:a''"
    by blast
  with t3 have s: "import_loop 2 (table_env cycle_docs) None (Leaf ''file:a'' # []) (Some ''file:b'')
          cycle_met_again
        = import_loop 2 (table_env cycle_docs) None [] (Some ''file:b'')
            (cycle_met_again\<lparr>graph := add_graph_dependency (graph cycle_met_again) ''file:a''
                                          (Some (location (Some ''file:b'')))\<rparr>)
      \<and> imports_tree (add_graph_dependency (graph cycle_met_again) ''file:a''
           (Some (location (Some ''file:b''))))
        = imports_tree (graph cycle_met_again)
      \<and> (''file:a'', location (Some ''file:b''))
        \<in> set (edges (imports_graph (add_graph_dependency (graph cycle_met_again) ''file:a''
                                       (Some (location (Some ''file:b''))))))"
    by (rule mp)
  note s' = s [unfolded l]
  from s' [THEN conjunct1]
  have s1: "import_loop 2 (table_env cycle_docs) None [Leaf ''file:a''] (Some ''file:b'')
          cycle_met_again
       = (cycle_met_again\<lparr>graph := add_graph_dependency (graph cycle_met_again) ''file:a''
                                     (Some ''file:b'')\<rparr>, Done)"
    by (simp only: import_loop.simps(1))
  from s' [THEN conjunct2, THEN conjunct1]
  have s2: "imports_tree (add_graph_dependency (graph cycle_met_again) ''file:a'' (Some ''file:b''))
       = imports_tree (graph cycle_met_again)" .
  from s' [THEN conjunct2, THEN conjunct2]
  have s3: "(''file:a'', ''file:b'')
       \<in> set (edges (imports_graph (add_graph_dependency (graph cycle_met_again) ''file:a''
                                      (Some ''file:b''))))" .
  from h1 h4 h5 h6 h2 h3 t1 d b h7 h8 e0 s1 s2 s3 e1 e2 show ?thesis by blast
qed

section \<open>Registering a document once\<close>

text \<open>
  C6: the first registration of a key stores the document it is given, and a later
  registration, of that key or of another, leaves the document of every registered key
  as it was. In a walk, a document loaded for a location not yet registered is the
  document the tree holds for that location when the loop over the importing document
  ends, whatever is imported after it, and the root keeps the root document; no location
  is handed to the resolver twice (with an absolute-path function that never returns the
  empty string); and when the library's sort returns a topological order of the tree, the
  ordering operation yields one entry for each registered key, carrying the document
  stored under it.
\<close>

theorem registration_first_wins:
  "(\<not> has_node (imports_tree g) key \<longrightarrow>
      node_parsed (imports_tree (ImportsGraph_add g key parsed via)) key = Inr parsed)
   \<and> (has_node (imports_tree g) k \<longrightarrow>
        node_parsed (imports_tree (ImportsGraph_add g key parsed via)) k
          = node_parsed (imports_tree g) k)
   \<and> (get_resource_location E name base = Some u \<and> \<not> ImportsGraph_contains (graph st) u
        \<and> fetch_import E u = Inr raw \<and> yaml_load E raw name u = Inr d \<longrightarrow>
        node_parsed (imports_tree (graph (fst
          (import_loop fuel E base (Leaf name # rest) current_import st)))) u = Inr d)
   \<and> node_parsed (built_tree fuel E parsed_dsl dsl_location base) (location dsl_location)
       = Inr parsed_dsl
   \<and> (abspath_ok E \<longrightarrow>
        distinct (fetched (fst (build_imports_graph fuel E parsed_dsl dsl_location base))))
   \<and> (nx_topological_sort E (imports_tree g) = Inr ts \<and> nx_topological_order (imports_tree g) ts
        \<and> ImportsGraph_topological_sort E g = Inr entries \<longrightarrow>
        distinct (map fst entries)
        \<and> set (map fst entries) = set (map fst (nodes (imports_tree g)))
        \<and> list_all (\<lambda>e. node_parsed (imports_tree g) (fst e) = Inr (snd e)) entries)"
proof (intro conjI impI)
  assume "\<not> has_node (imports_tree g) key"
  then show "node_parsed (imports_tree (ImportsGraph_add g key parsed via)) key = Inr parsed"
    by (rule node_parsed_add_first)
next
  assume "has_node (imports_tree g) k"
  then show "node_parsed (imports_tree (ImportsGraph_add g key parsed via)) k
      = node_parsed (imports_tree g) k"
    by (rule node_parsed_add_kept)
next
  assume "get_resource_location E name base = Some u \<and> \<not> ImportsGraph_contains (graph st) u
    \<and> fetch_import E u = Inr raw \<and> yaml_load E raw name u = Inr d"
  then have "get_resource_location E name base = Some u"
    and "\<not> ImportsGraph_contains (graph st) u"
    and "fetch_import E u = Inr raw" and "yaml_load E raw name u = Inr d"
    by simp_all
  then show "node_parsed (imports_tree (graph (fst
      (import_loop fuel E base (Leaf name # rest) current_import st)))) u = Inr d"
    by (rule import_loop_first_load)
next
  show "node_parsed (built_tree fuel E parsed_dsl dsl_location base) (location dsl_location)
      = Inr parsed_dsl"
    unfolding built_tree_def by (rule root_registered)
next
  assume "abspath_ok E"
  then show "distinct (fetched (fst (build_imports_graph fuel E parsed_dsl dsl_location base)))"
    by (rule build_imports_graph_post(2))
next
  assume a: "nx_topological_sort E (imports_tree g) = Inr ts \<and> nx_topological_order (imports_tree g) ts
    \<and> ImportsGraph_topological_sort E g = Inr entries"
  then have s: "nx_topological_sort E (imports_tree g) = Inr ts"
    and o: "nx_topological_order (imports_tree g) ts"
    and e: "ImportsGraph_topological_sort E g = Inr entries"
    by simp_all
  note r = sorted_entries [OF s o e]
  show "distinct (map fst entries)" by (rule r(2))
  show "set (map fst entries) = set (map fst (nodes (imports_tree g)))" by (rule r(3))
  show "list_all (\<lambda>e. node_parsed (imports_tree g) (fst e) = Inr (snd e)) entries" by (rule r(4))
qed

theorem registration_first_wins_witness:
  "\<not> has_node (imports_tree ImportsGraph_init) ''root''
   \<and> node_parsed (imports_tree (ImportsGraph_add ImportsGraph_init ''root'' diamond_root None))
        ''root'' = Inr diamond_root
   \<and> has_node (imports_tree diamond_graph) ''file:c''
   \<and> node_parsed (imports_tree (ImportsGraph_add diamond_graph ''file:c'' (Leaf ''again'')
        (Some ''file:b''))) ''file:c''
       = Inr (Dict [(''plugins'', Dict [])])
   \<and> get_resource_location (table_env diamond_docs) ''file:a'' None = Some ''file:a''
   \<and> \<not> ImportsGraph_contains (graph diamond_start) ''file:a''
   \<and> fetch_import (table_env diamond_docs) ''file:a'' = Inr ''file:a''
   \<and> yaml_load (table_env diamond_docs) ''file:a'' ''file:a'' ''file:a''
       = Inr (Dict [(''imports'', Seq [Leaf ''file:c'']), (''inputs'', Dict [])])
   \<and> node_parsed (imports_tree (graph (fst
        (import_loop 2 (table_env diamond_docs) None [Leaf ''file:a'', Leaf ''file:b''] None
           diamond_start)))) ''file:a''
       = Inr (Dict [(''imports'', Seq [Leaf ''file:c'']), (''inputs'', Dict [])])
   \<and> node_parsed (built_tree 2 (table_env diamond_docs) diamond_root None None) ''root''
       = Inr diamond_root
   \<and> abspath_ok (table_env diamond_docs)
   \<and> fetched (fst (build_imports_graph 2 (table_env diamond_docs) diamond_root None None))
       = [''file:a'', ''file:c'', ''file:b'']
   \<and> distinct (fetched (fst (build_imports_graph 2 (table_env diamond_docs) diamond_root None None)))
   \<and> nx_topological_sort (table_env diamond_docs) (imports_tree diamond_graph)
       = Inr [''file:c'', ''file:a'', ''file:b'', ''root'']
   \<and> nx_topological_order (imports_tree diamond_graph) [''file:c'', ''file:a'', ''file:b'', ''root'']
   \<and> ImportsGraph_topological_sort (table_env diamond_docs) diamond_graph = Inr diamond_ordered
   \<and> distinct (map fst diamond_ordered)
   \<and> set (map fst diamond_ordered) = set (map fst (nodes (imports_tree diamond_graph)))
   \<and> list_all (\<lambda>e. node_parsed (imports_tree diamond_graph) (fst e) = Inr (snd e)) diamond_ordered"
proof -
  have n0: "\<not> has_node (imports_tree ImportsGraph_init) ''root''" by code_simp
  have hn: "has_node (imports_tree diamond_graph) ''file:c''" by code_simp
  have np: "node_parsed (imports_tree diamond_graph) ''file:c'' = Inr (Dict [(''plugins'', Dict [])])"
    by code_simp
  have l1: "get_resource_location (table_env diamond_docs) ''file:a'' None = Some ''file:a''"
    by code_simp
  have l2: "\<not> ImportsGraph_contains (graph diamond_start) ''file:a''" by code_simp
  have l3: "fetch_import (table_env diamond_docs) ''file:a'' = Inr ''file:a''" by code_simp
  have l4: "yaml_load (table_env diamond_docs) ''file:a'' ''file:a'' ''file:a''
       = Inr (Dict [(''imports'', Seq [Leaf ''file:c'']), (''inputs'', Dict [])])"
    by code_simp
  have ok: "abspath_ok (table_env diamond_docs)" by (rule abspath_ok_table_env)
  have f: "fetched (fst (build_imports_graph 2 (table_env diamond_docs) diamond_root None None))
       = [''file:a'', ''file:c'', ''file:b'']"
    by code_simp
  have lo: "location None = ''root''" by (simp add: location_def truthy_def)
  note t = registration_first_wins [where g = ImportsGraph_init and key = "''root''"
      and parsed = diamond_root and via = None]
  note w = registration_first_wins [where g = diamond_graph and key = "''file:c''"
      and k = "''file:c''"
      and parsed = "Leaf ''again''" and via = "Some ''file:b''" and E = "table_env diamond_docs"
      and fuel = 2 and parsed_dsl = diamond_root and dsl_location = None and base = None
      and ts = "[''file:c'', ''file:a'', ''file:b'', ''root'']"
      and entries = diamond_ordered
      and name = "''file:a''" and u = "''file:a''" and st = diamond_start
      and raw = "''file:a''"
      and d = "Dict [(''imports'', Seq [Leaf ''file:c'']), (''inputs'', Dict [])]"
      and rest = "[Leaf ''file:b'']" and current_import = None]
  note w2 = w [THEN conjunct2, THEN conjunct1]
  note w3 = w [THEN conjunct2, THEN conjunct2, THEN conjunct1]
  note w4 = w [THEN conjunct2, THEN conjunct2, THEN conjunct2, THEN conjunct1]
  note w5 = w [THEN conjunct2, THEN conjunct2, THEN conjunct2, THEN conjunct2, THEN conjunct1]
  note w6 = w [THEN conjunct2, THEN conjunct2, THEN conjunct2, THEN conjunct2, THEN conjunct2]
  from t [THEN conjunct1] n0
  have a1: "node_parsed (imports_tree (ImportsGraph_add ImportsGraph_init ''root'' diamond_root None))
        ''root'' = Inr diamond_root"
    by (rule mp)
  from w2 hn have "node_parsed (imports_tree (ImportsGraph_add diamond_graph ''file:c''
        (Leaf ''again'') (Some ''file:b''))) ''file:c''
       = node_parsed (imports_tree diamond_graph) ''file:c''"
    by (rule mp)
  with np have a2: "node_parsed (imports_tree (ImportsGraph_add diamond_graph ''file:c''
        (Leaf ''again'') (Some ''file:b''))) ''file:c''
       = Inr (Dict [(''plugins'', Dict [])])"
    by simp
  from l1 l2 l3 l4 have "get_resource_location (table_env diamond_docs) ''file:a'' None = Some ''file:a''
      \<and> \<not> ImportsGraph_contains (graph diamond_start) ''file:a''
      \<and> fetch_import (table_env diamond_docs) ''file:a'' = Inr ''file:a''
      \<and> yaml_load (table_env diamond_docs) ''file:a'' ''file:a'' ''file:a''
          = Inr (Dict [(''imports'', Seq [Leaf ''file:c'']), (''inputs'', Dict [])])"
    by blast
  with w3 have a3: "node_parsed (imports_tree (graph (fst
        (import_loop 2 (table_env diamond_docs) None (Leaf ''file:a'' # [Leaf ''file:b'']) None
           diamond_start)))) ''file:a''
       = Inr (Dict [(''imports'', Seq [Leaf ''file:c'']), (''inputs'', Dict [])])"
    by (rule mp)
  from w4 have a4: "node_parsed (built_tree 2 (table_env diamond_docs) diamond_root None None) ''root''
       = Inr diamond_root"
    unfolding lo .
  from w5 ok have a5: "distinct (fetched (fst (build_imports_graph 2 (table_env diamond_docs)
      diamond_root None None)))"
    by (rule mp)
  from diamond_sort diamond_order diamond_entries
  have "nx_topological_sort (table_env diamond_docs) (imports_tree diamond_graph)
          = Inr [''file:c'', ''file:a'', ''file:b'', ''root'']
      \<and> nx_topological_order (imports_tree diamond_graph) [''file:c'', ''file:a'', ''file:b'', ''root'']
      \<and> ImportsGraph_topological_sort (table_env diamond_docs) diamond_graph = Inr diamond_ordered"
    by blast
  with w6 have a6: "distinct (map fst diamond_ordered)
      \<and> set (map fst diamond_ordered) = set (map fst (nodes (imports_tree diamond_graph)))
      \<and> list_all (\<lambda>e. node_parsed (imports_tree diamond_graph) (fst e) = Inr (snd e)) diamond_ordered"
    by (rule mp)
  from n0 a1 hn a2 l1 l2 l3 l4 a3 a4 ok f a5 diamond_sort diamond_order diamond_entries a6
  show ?thesis by blast
qed

section \<open>Component types of a data type\<close>




section \<open>Defaults of schema properties\<close>

text \<open>
  C9: for a schema property with no declared default, the parse of the default gives
  \<open>None\<close> when the property has no type or a primitive type, and otherwise what the
  value parser derives from the empty dict for the property's type, against the component
  types in scope (no types when there are none). In the parsed property the key
  \<open>default\<close> is present exactly when that value is not \<open>None\<close>, and then holds it;
  so with no type or a primitive type the parsed property has no default.
\<close>

theorem undeclared_default:
  "(type_name = None \<or> the type_name \<in> set (USER_PRIMITIVE_TYPES D) \<longrightarrow>
      SchemaPropertyDefault_parse D type_name PNone component_types prop_name current_type
        = Inr PNone)
   \<and> (type_name = Some t \<and> t \<notin> set (USER_PRIMITIVE_TYPES D) \<longrightarrow>
        SchemaPropertyDefault_parse D type_name PNone component_types prop_name current_type
          = parse_value D (PDict []) (Some t)
              (case component_types of None \<Rightarrow> [] | Some ct \<Rightarrow> ct) current_type [prop_name])
   \<and> (distinct (map child_name children) \<and> c \<in> set children \<and> child_name c = ''default''
        \<and> \<not> declared c
        \<and> SchemaPropertyDefault_parse D type_name PNone component_types prop_name current_type
            = Inr (child_value c) \<longrightarrow>
        (''default'' \<in> fst ` set (SchemaProperty_parse children in_data_type initial_default))
          = (child_value c \<noteq> PNone)
        \<and> (child_value c \<noteq> PNone \<longrightarrow>
             map_of (SchemaProperty_parse children in_data_type initial_default) ''default''
               = Some (child_value c))
        \<and> (type_name = None \<or> the type_name \<in> set (USER_PRIMITIVE_TYPES D) \<longrightarrow>
             ''default'' \<notin> fst ` set (SchemaProperty_parse children in_data_type initial_default)))"
proof (intro conjI impI)
  assume "type_name = None \<or> the type_name \<in> set (USER_PRIMITIVE_TYPES D)"
  then show "SchemaPropertyDefault_parse D type_name PNone component_types prop_name current_type
      = Inr PNone"
    by (auto simp: SchemaPropertyDefault_parse_def)
next
  assume "type_name = Some t \<and> t \<notin> set (USER_PRIMITIVE_TYPES D)"
  then show "SchemaPropertyDefault_parse D type_name PNone component_types prop_name current_type
      = parse_value D (PDict []) (Some t)
          (case component_types of None \<Rightarrow> [] | Some ct \<Rightarrow> ct) current_type [prop_name]"
    by (simp add: SchemaPropertyDefault_parse_def)
next
  assume h: "distinct (map child_name children) \<and> c \<in> set children \<and> child_name c = ''default''
    \<and> \<not> declared c
    \<and> SchemaPropertyDefault_parse D type_name PNone component_types prop_name current_type
        = Inr (child_value c)"
  then have d: "distinct (map child_name children)" and cin: "c \<in> set children"
    and nm: "child_name c = ''default''" and nd: "\<not> declared c"
    and pv: "SchemaPropertyDefault_parse D type_name PNone component_types prop_name current_type
        = Inr (child_value c)"
    by simp_all
  from nd have df: "defined c = (child_value c \<noteq> PNone)" by (simp add: defined_def)
  from default_child_defined [OF d cin nm, of in_data_type initial_default] df
  show k: "(''default'' \<in> fst ` set (SchemaProperty_parse children in_data_type initial_default))
      = (child_value c \<noteq> PNone)"
    by simp
  {
    assume "child_value c \<noteq> PNone"
    with df have "defined c" by simp
    from map_of_SchemaProperty_parse [OF d cin this, of in_data_type initial_default] nm
    show "map_of (SchemaProperty_parse children in_data_type initial_default) ''default''
        = Some (child_value c)"
      by simp
  }
  {
    assume "type_name = None \<or> the type_name \<in> set (USER_PRIMITIVE_TYPES D)"
    then have "SchemaPropertyDefault_parse D type_name PNone component_types prop_name current_type
        = Inr PNone"
      by (auto simp: SchemaPropertyDefault_parse_def)
    with pv have "child_value c = PNone" by simp
    with k show "''default'' \<notin> fst ` set (SchemaProperty_parse children in_data_type initial_default)"
      by simp
  }
qed

theorem undeclared_default_witness:
  "the (Some ''string'') \<in> set (USER_PRIMITIVE_TYPES example_dt_env)
   \<and> SchemaPropertyDefault_parse example_dt_env (Some ''string'') PNone None ''name'' ''pair''
       = Inr PNone
   \<and> ''point'' \<notin> set (USER_PRIMITIVE_TYPES example_dt_env)
   \<and> SchemaPropertyDefault_parse example_dt_env (Some ''point'') PNone
        (Some [(''point'', PDict [])]) ''first'' ''pair''
       = Inr (PDict [(''parsed'', PDict []), (''types'', PList [PStr ''point''])])
   \<and> SchemaProperty_parse
        [\<lparr>child_name = ''required'', child_value = PNone, declared = False\<rparr>,
         \<lparr>child_name = ''default'', child_value = PNone, declared = False\<rparr>,
         \<lparr>child_name = ''description'', child_value = PNone, declared = False\<rparr>,
         \<lparr>child_name = ''type'', child_value = PStr ''string'', declared = True\<rparr>] True PNone
       = [(''type'', PStr ''string''), (''initial_default'', PNone)]
   \<and> ''default'' \<notin> fst ` set (SchemaProperty_parse
        [\<lparr>child_name = ''required'', child_value = PNone, declared = False\<rparr>,
         \<lparr>child_name = ''default'', child_value = PNone, declared = False\<rparr>,
         \<lparr>child_name = ''description'', child_value = PNone, declared = False\<rparr>,
         \<lparr>child_name = ''type'', child_value = PStr ''string'', declared = True\<rparr>] True PNone)
   \<and> map_of (SchemaProperty_parse
        [\<lparr>child_name = ''required'', child_value = PNone, declared = False\<rparr>,
         \<lparr>child_name = ''default'',
           child_value = PDict [(''parsed'', PDict []), (''types'', PList [PStr ''point''])],
           declared = False\<rparr>,
         \<lparr>child_name = ''description'', child_value = PNone, declared = False\<rparr>,
         \<lparr>child_name = ''type'', child_value = PStr ''point'', declared = True\<rparr>] True PNone)
        ''default''
       = Some (PDict [(''parsed'', PDict []), (''types'', PList [PStr ''point''])])"
proof -
  let ?c1 = "\<lparr>child_name = ''default'', child_value = PNone, declared = False\<rparr>"
  let ?cs1 = "[\<lparr>child_name = ''required'', child_value = PNone, declared = False\<rparr>,
         ?c1,
         \<lparr>child_name = ''description'', child_value = PNone, declared = False\<rparr>,
         \<lparr>child_name = ''type'', child_value = PStr ''string'', declared = True\<rparr>]"
  let ?v2 = "PDict [(''parsed'', PDict []), (''types'', PList [PStr ''point''])]"
  let ?c2 = "\<lparr>child_name = ''default'', child_value = ?v2, declared = False\<rparr>"
  let ?cs2 = "[\<lparr>child_name = ''required'', child_value = PNone, declared = False\<rparr>,
         ?c2,
         \<lparr>child_name = ''description'', child_value = PNone, declared = False\<rparr>,
         \<lparr>child_name = ''type'', child_value = PStr ''point'', declared = True\<rparr>]"
  have p1: "the (Some ''string'') \<in> set (USER_PRIMITIVE_TYPES example_dt_env)"
    by (simp add: example_dt_env_def)
  have p2: "''point'' \<notin> set (USER_PRIMITIVE_TYPES example_dt_env)"
    by (simp add: example_dt_env_def)
  have pv: "parse_value example_dt_env (PDict []) (Some ''point'')
      (case Some [(''point'', PDict [])] of None \<Rightarrow> [] | Some ct \<Rightarrow> ct) ''pair'' [''first'']
      = Inr ?v2"
    by (simp add: example_dt_env_def)
  have sp: "SchemaProperty_parse ?cs1 True PNone
       = [(''type'', PStr ''string''), (''initial_default'', PNone)]"
    by code_simp
  note t1 = undeclared_default [where D = example_dt_env and type_name = "Some ''string''"
      and component_types = None and prop_name = "''name''" and current_type = "''pair''"
      and t = "''string''" and children = ?cs1 and c = ?c1 and in_data_type = True
      and initial_default = PNone]
  note t2 = undeclared_default [where D = example_dt_env and type_name = "Some ''point''"
      and component_types = "Some [(''point'', PDict [])]" and prop_name = "''first''"
      and current_type = "''pair''"
      and t = "''point''" and children = ?cs2 and c = ?c2 and in_data_type = True
      and initial_default = PNone]
  from p1 have "Some ''string'' = None
      \<or> the (Some ''string'') \<in> set (USER_PRIMITIVE_TYPES example_dt_env)"
    by simp
  with t1 [THEN conjunct1]
  have a1: "SchemaPropertyDefault_parse example_dt_env (Some ''string'') PNone None ''name'' ''pair''
       = Inr PNone"
    by (rule mp)
  from p2 have "Some ''point'' = Some ''point'' \<and> ''point'' \<notin> set (USER_PRIMITIVE_TYPES example_dt_env)"
    by simp
  with t2 [THEN conjunct2, THEN conjunct1]
  have "SchemaPropertyDefault_parse example_dt_env (Some ''point'') PNone
        (Some [(''point'', PDict [])]) ''first'' ''pair''
       = parse_value example_dt_env (PDict []) (Some ''point'')
           (case Some [(''point'', PDict [])] of None \<Rightarrow> [] | Some ct \<Rightarrow> ct) ''pair'' [''first'']"
    by (rule mp)
  then have a2: "SchemaPropertyDefault_parse example_dt_env (Some ''point'') PNone
        (Some [(''point'', PDict [])]) ''first'' ''pair'' = Inr ?v2"
    by (simp only: pv)
  have "distinct (map child_name ?cs1) \<and> ?c1 \<in> set ?cs1 \<and> child_name ?c1 = ''default''
      \<and> \<not> declared ?c1
      \<and> SchemaPropertyDefault_parse example_dt_env (Some ''string'') PNone None ''name'' ''pair''
          = Inr (child_value ?c1)"
    using a1 by simp
  with t1 [THEN conjunct2, THEN conjunct2]
  have r1: "(''default'' \<in> fst ` set (SchemaProperty_parse ?cs1 True PNone))
          = (child_value ?c1 \<noteq> PNone)
        \<and> (child_value ?c1 \<noteq> PNone \<longrightarrow>
             map_of (SchemaProperty_parse ?cs1 True PNone) ''default'' = Some (child_value ?c1))
        \<and> (Some ''string'' = None \<or> the (Some ''string'') \<in> set (USER_PRIMITIVE_TYPES example_dt_env) \<longrightarrow>
             ''default'' \<notin> fst ` set (SchemaProperty_parse ?cs1 True PNone))"
    by (rule mp)
  from r1 [THEN conjunct1]
  have a3: "''default'' \<notin> fst ` set (SchemaProperty_parse ?cs1 True PNone)"
    by simp
  have "distinct (map child_name ?cs2) \<and> ?c2 \<in> set ?cs2 \<and> child_name ?c2 = ''default''
      \<and> \<not> declared ?c2
      \<and> SchemaPropertyDefault_parse example_dt_env (Some ''point'') PNone
          (Some [(''point'', PDict [])]) ''first'' ''pair''
          = Inr (child_value ?c2)"
    using a2 by simp
  with t2 [THEN conjunct2, THEN conjunct2]
  have r2: "(''default'' \<in> fst ` set (SchemaProperty_parse ?cs2 True PNone))
          = (child_value ?c2 \<noteq> PNone)
        \<and> (child_value ?c2 \<noteq> PNone \<longrightarrow>
             map_of (SchemaProperty_parse ?cs2 True PNone) ''default'' = Some (child_value ?c2))
        \<and> (Some ''point'' = None \<or> the (Some ''point'') \<in> set (USER_PRIMITIVE_TYPES example_dt_env) \<longrightarrow>
             ''default'' \<notin> fst ` set (SchemaProperty_parse ?cs2 True PNone))"
    by (rule mp)
  from r2 [THEN conjunct2, THEN conjunct1]
  have a4: "map_of (SchemaProperty_parse ?cs2 True PNone) ''default'' = Some ?v2"
    by simp
  from p1 a1 p2 a2 sp a3 a4 show ?thesis by blast
qed

end
